theory Spec2Isabelle
  imports Main "HOL-Library.Word" "HOL-Library.Sublist"
begin

section \<open>Strings and character classes of the JavaScript runtime\<close>

text \<open>
  A JavaScript string is a sequence of UTF-16 code units; the regular expressions of
  \<^verbatim>\<open>transformMarkdown\<close> carry no \<^verbatim>\<open>u\<close> flag, so they work on code units too.
\<close>

type_synonym jschar = "16 word"
type_synonym jsstring = "jschar list"

definition js :: "string \<Rightarrow> jsstring" where
  "js = map of_char"

abbreviation LF :: jschar where "LF \<equiv> 0x0A"
abbreviation CR :: jschar where "CR \<equiv> 0x0D"
abbreviation SPACE :: jschar where "SPACE \<equiv> 0x20"
abbreviation HASH :: jschar where "HASH \<equiv> 0x23"
abbreviation BACKSLASH :: jschar where "BACKSLASH \<equiv> 0x5C"
abbreviation BACKTICK :: jschar where "BACKTICK \<equiv> 0x60"
abbreviation STAR :: jschar where "STAR \<equiv> 0x2A"
abbreviation UNDERSCORE :: jschar where "UNDERSCORE \<equiv> 0x5F"
abbreviation DASH :: jschar where "DASH \<equiv> 0x2D"
abbreviation PLUS :: jschar where "PLUS \<equiv> 0x2B"
abbreviation DOT :: jschar where "DOT \<equiv> 0x2E"
abbreviation BANG :: jschar where "BANG \<equiv> 0x21"
abbreviation LBRACKET :: jschar where "LBRACKET \<equiv> 0x5B"
abbreviation RBRACKET :: jschar where "RBRACKET \<equiv> 0x5D"
abbreviation PIPE :: jschar where "PIPE \<equiv> 0x7C"
abbreviation LESS :: jschar where "LESS \<equiv> 0x3C"
abbreviation GREATER :: jschar where "GREATER \<equiv> 0x3E"
abbreviation SLASH :: jschar where "SLASH \<equiv> 0x2F"
abbreviation TAB :: jschar where "TAB \<equiv> 0x09"
abbreviation QUOTE :: jschar where "QUOTE \<equiv> 0x27"
abbreviation DQUOTE :: jschar where "DQUOTE \<equiv> 0x22"

text \<open>LineTerminator of ECMAScript: what \<^verbatim>\<open>^\<close> and \<^verbatim>\<open>$\<close> under the \<^verbatim>\<open>m\<close> flag look for, and
  what \<^verbatim>\<open>.\<close> refuses.\<close>

definition is_line_terminator :: "jschar \<Rightarrow> bool" where
  "is_line_terminator c \<longleftrightarrow> c = 0x0A \<or> c = 0x0D \<or> c = 0x2028 \<or> c = 0x2029"

text \<open>The class \<^verbatim>\<open>\s\<close> (WhiteSpace and LineTerminator); \<^verbatim>\<open>String.prototype.trim\<close> strips
  the same code units.\<close>

definition is_space :: "jschar \<Rightarrow> bool" where
  "is_space c \<longleftrightarrow>
     c = 0x09 \<or> c = 0x0A \<or> c = 0x0B \<or> c = 0x0C \<or> c = 0x0D \<or> c = 0x20 \<or> c = 0xA0
     \<or> c = 0x1680 \<or> (0x2000 \<le> c \<and> c \<le> 0x200A) \<or> c = 0x2028 \<or> c = 0x2029
     \<or> c = 0x202F \<or> c = 0x205F \<or> c = 0x3000 \<or> c = 0xFEFF"

text \<open>The class \<^verbatim>\<open>\d\<close>.\<close>

definition is_digit :: "jschar \<Rightarrow> bool" where
  "is_digit c \<longleftrightarrow> 0x30 \<le> c \<and> c \<le> 0x39"

text \<open>The class \<^verbatim>\<open>[a-z]\<close> under the \<^verbatim>\<open>i\<close> flag (no \<^verbatim>\<open>u\<close> flag): the ASCII letters.\<close>

definition is_letter :: "jschar \<Rightarrow> bool" where
  "is_letter c \<longleftrightarrow> (0x41 \<le> c \<and> c \<le> 0x5A) \<or> (0x61 \<le> c \<and> c \<le> 0x7A)"

text \<open>The assertion \<^verbatim>\<open>^\<close> under the \<^verbatim>\<open>m\<close> flag, from the code unit before the position
  (\<open>None\<close> at index 0).\<close>

definition line_start :: "jschar option \<Rightarrow> bool" where
  "line_start prev = (case prev of None \<Rightarrow> True | Some c \<Rightarrow> is_line_terminator c)"

text \<open>The assertion \<^verbatim>\<open>$\<close> under the \<^verbatim>\<open>m\<close> flag, from the rest of the input.\<close>

definition line_end :: "jsstring \<Rightarrow> bool" where
  "line_end s = (case s of [] \<Rightarrow> True | c # _ \<Rightarrow> is_line_terminator c)"

text \<open>The length of the run of code units of a class at the head of the input: what a
  greedy \<^verbatim>\<open>X*\<close> consumes.\<close>

definition run :: "(jschar \<Rightarrow> bool) \<Rightarrow> jsstring \<Rightarrow> nat" where
  "run P s = length (takeWhile P s)"

section \<open>Global replacement\<close>

text \<open>
  \<^verbatim>\<open>String.prototype.replace\<close> with a \<^verbatim>\<open>g\<close> regular expression first collects all
  matches, scanning from left to right and resuming after each match, then replaces each
  one in order. A matcher gets the code unit before the position and the rest of the
  input, and answers the length of the match that starts at this position.
  None of the expressions of this program matches the empty string; a matcher answering
  0 or more than the rest is treated as no match.
\<close>

type_synonym matcher = "jschar option \<Rightarrow> jsstring \<Rightarrow> nat option"

datatype piece = Keep jschar | Hit jsstring

function pieces :: "matcher \<Rightarrow> jschar option \<Rightarrow> jsstring \<Rightarrow> piece list" where
  "pieces m prev [] = []"
| "pieces m prev (c # cs) =
     (case m prev (c # cs) of
        None \<Rightarrow> Keep c # pieces m (Some c) cs
      | Some n \<Rightarrow>
          if 0 < n \<and> n \<le> length (c # cs)
          then Hit (take n (c # cs)) # pieces m (Some ((c # cs) ! (n - 1))) (drop n (c # cs))
          else Keep c # pieces m (Some c) cs)"
  by pat_completeness auto
termination
  by (relation "measure (\<lambda>(m, prev, s). length s)") auto

text \<open>Replacement by a function of the match (a replacement string \<^verbatim>\<open>'\\$1'\<close> whose
  group 1 spans the whole match is the function that prepends a backslash).\<close>

definition substitute :: "(jsstring \<Rightarrow> jsstring) \<Rightarrow> piece list \<Rightarrow> jsstring" where
  "substitute f ps = concat (map (\<lambda>p. case p of Keep c \<Rightarrow> [c] | Hit mt \<Rightarrow> f mt) ps)"

definition replace_g :: "matcher \<Rightarrow> (jsstring \<Rightarrow> jsstring) \<Rightarrow> jsstring \<Rightarrow> jsstring" where
  "replace_g m f s = substitute f (pieces m None s)"

text \<open>Replacement by a callback that reads and writes variables of the enclosing
  function: the closure state is threaded through the matches in order.\<close>

fun substitute_cb :: "('st \<Rightarrow> jsstring \<Rightarrow> jsstring \<times> 'st) \<Rightarrow> 'st \<Rightarrow> piece list \<Rightarrow> jsstring \<times> 'st" where
  "substitute_cb cb st [] = ([], st)"
| "substitute_cb cb st (Keep c # ps) =
     (let (out, st') = substitute_cb cb st ps in (c # out, st'))"
| "substitute_cb cb st (Hit mt # ps) =
     (let (r, st1) = cb st mt;
          (out, st2) = substitute_cb cb st1 ps
      in (r @ out, st2))"

definition replace_cb :: "matcher \<Rightarrow> ('st \<Rightarrow> jsstring \<Rightarrow> jsstring \<times> 'st) \<Rightarrow> 'st \<Rightarrow> jsstring \<Rightarrow> jsstring \<times> 'st" where
  "replace_cb m cb st s = substitute_cb cb st (pieces m None s)"

section \<open>Heading levels\<close>

text \<open>\<^verbatim>\<open>/^(#{1,6})\s/gm\<close>: at a line start, a run of one to six \<^verbatim>\<open>#\<close> and one \<^verbatim>\<open>\s\<close>.
  A run of seven or more does not match: after six, the next code unit is \<^verbatim>\<open>#\<close>, and
  giving back \<^verbatim>\<open>#\<close>s leaves a \<^verbatim>\<open>#\<close> where \<^verbatim>\<open>\s\<close> is wanted.\<close>

definition heading_at :: "jsstring \<Rightarrow> nat option" where
  "heading_at s =
     (let k = run (\<lambda>c. c = HASH) s
      in if 1 \<le> k \<and> k \<le> 6 \<and> k < length s \<and> is_space (s ! k) then Some (k + 1) else None)"

definition headingRegex :: matcher where
  "headingRegex prev s = (if line_start prev then heading_at s else None)"

text \<open>The variables \<^verbatim>\<open>delta\<close> and \<^verbatim>\<open>cascading\<close> the two heading callbacks close over;
  \<^verbatim>\<open>appliedTransformations\<close>, a variable of the whole function, is threaded beside them.\<close>

record closure =
  delta :: int
  cascading :: bool

text \<open>\<^verbatim>\<open>'#'.repeat(newLevel) + ' '\<close>. (\<^verbatim>\<open>repeat\<close> raises a RangeError on a negative count;
  by lemma \<open>heading_new_levels_ge\<close> below no callback lowers a level, and the level of a
  marker is at least 1, so the count is never negative.)\<close>

definition heading_text :: "int \<Rightarrow> jsstring" where
  "heading_text newLevel = replicate (nat newLevel) HASH @ [SPACE]"

text \<open>Lines 37 to 58: the callback of the contextual cascade. Group 1 of the match is
  the match without its last code unit.\<close>

definition contextual_level :: "int \<Rightarrow> closure \<Rightarrow> int \<Rightarrow> int \<times> closure" where
  "contextual_level contextLevel st currentLevel =
     (if cascading st then (min (currentLevel + delta st) 6, st)
      else if currentLevel \<le> contextLevel then
        (let newLevel = min (contextLevel + 1) 6
         in (newLevel, st\<lparr>delta := newLevel - currentLevel, cascading := True\<rparr>))
      else (currentLevel, st))"

definition contextual_callback :: "int \<Rightarrow> closure \<times> bool \<Rightarrow> jsstring \<Rightarrow> jsstring \<times> closure \<times> bool" where
  "contextual_callback contextLevel = (\<lambda>(st, applied) mt.
     let currentLevel = int (length (butlast mt));
         (newLevel, st1) = contextual_level contextLevel st currentLevel
     in (heading_text newLevel, st1, newLevel \<noteq> currentLevel))"

text \<open>Lines 63 to 90: the callback of the max-level mode.\<close>

definition max_level :: "int \<Rightarrow> bool \<Rightarrow> closure \<Rightarrow> int \<Rightarrow> int \<times> closure" where
  "max_level maxHeadingLevel cascadeHeadingLevels st currentLevel =
     (if cascadeHeadingLevels then
        (if cascading st then (min (currentLevel + delta st) 6, st)
         else if currentLevel < maxHeadingLevel then
           (let newLevel = maxHeadingLevel
            in (newLevel, st\<lparr>delta := newLevel - currentLevel, cascading := True\<rparr>))
         else (currentLevel, st))
      else (max currentLevel maxHeadingLevel, st))"

definition max_level_callback :: "int \<Rightarrow> bool \<Rightarrow> closure \<times> bool \<Rightarrow> jsstring \<Rightarrow> jsstring \<times> closure \<times> bool" where
  "max_level_callback maxHeadingLevel cascadeHeadingLevels = (\<lambda>(st, applied) mt.
     let currentLevel = int (length (butlast mt));
         (newLevel, st1) = max_level maxHeadingLevel cascadeHeadingLevels st currentLevel
     in (heading_text newLevel, st1, newLevel \<noteq> currentLevel))"

record rule =
  pattern :: jsstring
  replacement :: jsstring

record settings =
  markdownRegexReplacements :: "rule list"
  contextualCascade :: bool
  maxHeadingLevel :: int
  cascadeHeadingLevels :: bool
  stripLineBreaks :: bool
  convertToSingleSpaced :: bool
  removeEmptyLines :: bool

text \<open>Lines 27 to 91, the branch \<^verbatim>\<open>!escapeMarkdown\<close>: the text and the flag after it.\<close>

definition normalize_headings :: "settings \<Rightarrow> int \<Rightarrow> jsstring \<times> bool \<Rightarrow> jsstring \<times> bool" where
  "normalize_headings cfg contextLevel = (\<lambda>(markdown, applied).
     if contextualCascade cfg \<and> contextLevel > 0 then
       (let (out, st, applied') =
              replace_cb headingRegex (contextual_callback contextLevel)
                (\<lparr>delta = -1, cascading = False\<rparr>, applied) markdown
        in (out, applied'))
     else if maxHeadingLevel cfg > 1 then
       (let (out, st, applied') =
              replace_cb headingRegex
                (max_level_callback (maxHeadingLevel cfg) (cascadeHeadingLevels cfg))
                (\<lparr>delta = -1, cascading = False\<rparr>, applied) markdown
        in (out, applied'))
     else (markdown, applied))"

section \<open>Escaping\<close>

text \<open>Lines 95 to 128. Each pass replaces a match by a backslash and the match: group 1
  of every expression spans the whole match.\<close>

definition backslash :: "jsstring \<Rightarrow> jsstring" where
  "backslash mt = BACKSLASH # mt"

text \<open>\<^verbatim>\<open>/(\*\*|__|\*|_)/g\<close>: the alternatives in their order.\<close>

definition emphasisRegex :: matcher where
  "emphasisRegex prev s =
     (if prefix [STAR, STAR] s then Some 2
      else if prefix [UNDERSCORE, UNDERSCORE] s then Some 2
      else if prefix [STAR] s then Some 1
      else if prefix [UNDERSCORE] s then Some 1
      else None)"

text \<open>\<^verbatim>\<open>/^(\s*[-+*]\s)/gm\<close>. The greedy \<^verbatim>\<open>\s*\<close> takes the whole run of white space (line
  breaks too); giving some back leaves white space where the bullet is wanted.\<close>

definition bulletRegex :: matcher where
  "bulletRegex prev s =
     (if line_start prev then
        (let n = run is_space s
         in if n + 1 < length s \<and> (s ! n = DASH \<or> s ! n = PLUS \<or> s ! n = STAR)
               \<and> is_space (s ! (n + 1))
            then Some (n + 2) else None)
      else None)"

text \<open>\<^verbatim>\<open>/^(\s*\d+\.\s)/gm\<close>.\<close>

definition numberedRegex :: matcher where
  "numberedRegex prev s =
     (if line_start prev then
        (let n = run is_space s; t = drop n s; d = run is_digit t
         in if 1 \<le> d \<and> d + 1 < length t \<and> t ! d = DOT \<and> is_space (t ! (d + 1))
            then Some (n + d + 2) else None)
      else None)"

text \<open>\<^verbatim>\<open>/(!?\[)/g\<close>.\<close>

definition linkRegex :: matcher where
  "linkRegex prev s =
     (if prefix [BANG, LBRACKET] s then Some 2
      else if prefix [LBRACKET] s then Some 1
      else None)"

text \<open>\<^verbatim>\<open>/(`{1,3})/g\<close>: up to three of a run of backticks.\<close>

definition backtickRegex :: matcher where
  "backtickRegex prev s =
     (let n = run (\<lambda>c. c = BACKTICK) s in if 1 \<le> n then Some (min n 3) else None)"

text \<open>\<^verbatim>\<open>/^(\s*>\s)/gm\<close>.\<close>

definition quoteRegex :: matcher where
  "quoteRegex prev s =
     (if line_start prev then
        (let n = run is_space s
         in if n + 1 < length s \<and> s ! n = GREATER \<and> is_space (s ! (n + 1))
            then Some (n + 2) else None)
      else None)"

text \<open>\<^verbatim>\<open>/^(\s*[-*_]{3,}\s*)$/gm\<close>. The trailing \<^verbatim>\<open>\s*\<close> is greedy and gives back white space
  until \<^verbatim>\<open>$\<close> holds: \<open>last_line_end u w\<close> is the largest \<open>j \<le> w\<close> with a line end after
  \<open>j\<close> code units of \<open>u\<close>.\<close>

fun last_line_end :: "jsstring \<Rightarrow> nat \<Rightarrow> nat option" where
  "last_line_end u 0 = (if line_end u then Some 0 else None)"
| "last_line_end u (Suc j) =
     (if line_end (drop (Suc j) u) then Some (Suc j) else last_line_end u j)"

definition ruleRegex :: matcher where
  "ruleRegex prev s =
     (if line_start prev then
        (let n = run is_space s; t = drop n s;
             k = run (\<lambda>c. c = DASH \<or> c = STAR \<or> c = UNDERSCORE) t; u = drop k t
         in if 3 \<le> k then
              (case last_line_end u (run is_space u) of
                 Some j \<Rightarrow> Some (n + k + j)
               | None \<Rightarrow> None)
            else None)
      else None)"

text \<open>\<^verbatim>\<open>/(\|)/g\<close>.\<close>

definition pipeRegex :: matcher where
  "pipeRegex prev s = (if prefix [PIPE] s then Some 1 else None)"

text \<open>\<^verbatim>\<open>/^(\s*- \[ \])/gm\<close>.\<close>

definition taskRegex :: matcher where
  "taskRegex prev s =
     (if line_start prev then
        (let n = run is_space s
         in if prefix [DASH, SPACE, LBRACKET, SPACE, RBRACKET] (drop n s)
            then Some (n + 5) else None)
      else None)"

text \<open>\<^verbatim>\<open>/(`.*?`)|(<\/?[a-z][^>]*>)/gi\<close>. The first alternative: a backtick, the fewest code
  units that are no line terminators, and a backtick, so it ends at the next backtick if
  no line terminator comes before it.\<close>

definition code_span_at :: "jsstring \<Rightarrow> nat option" where
  "code_span_at s =
     (case s of
        [] \<Rightarrow> None
      | c # t \<Rightarrow>
          if c = BACKTICK then
            (let j = run (\<lambda>x. x \<noteq> BACKTICK \<and> \<not> is_line_terminator x) t
             in if j < length t \<and> t ! j = BACKTICK then Some (j + 2) else None)
          else None)"

text \<open>The second alternative: \<^verbatim>\<open><\<close>, an optional \<^verbatim>\<open>/\<close>, a letter, and everything up to the
  next \<^verbatim>\<open>>\<close>.\<close>

definition html_tag_at :: "jsstring \<Rightarrow> nat option" where
  "html_tag_at s =
     (case s of
        [] \<Rightarrow> None
      | c # t \<Rightarrow>
          if c = LESS then
            (let opt = (if prefix [SLASH] t then 1 else 0)
             in case drop opt t of
                  [] \<Rightarrow> None
                | l # v \<Rightarrow>
                    if is_letter l then
                      (let j = run (\<lambda>x. x \<noteq> GREATER) v
                       in if j < length v then Some (opt + j + 3) else None)
                    else None)
          else None)"

definition codeOrTagRegex :: matcher where
  "codeOrTagRegex prev s =
     (case code_span_at s of Some n \<Rightarrow> Some n | None \<Rightarrow> html_tag_at s)"

text \<open>The callback of lines 121 to 126. \<^verbatim>\<open>codeContent\<close> is defined exactly when the first
  alternative matched, that is when the match starts with a backtick; it is then returned
  as it is. Otherwise \<^verbatim>\<open>htmlTag\<close> is the match, and it is wrapped in backticks.\<close>

definition code_or_tag_callback :: "jsstring \<Rightarrow> jsstring" where
  "code_or_tag_callback mt =
     (case mt of
        [] \<Rightarrow> mt
      | c # _ \<Rightarrow> if c = BACKTICK then mt else BACKTICK # mt @ [BACKTICK])"

definition wrap_html_tags :: "jsstring \<Rightarrow> jsstring" where
  "wrap_html_tags markdown = replace_g codeOrTagRegex code_or_tag_callback markdown"

text \<open>Lines 99 to 126: the passes in their order.\<close>

definition escape_passes :: "jsstring \<Rightarrow> jsstring" where
  "escape_passes markdown =
     (let m1 = replace_g headingRegex backslash markdown;
          m2 = replace_g emphasisRegex backslash m1;
          m3 = replace_g bulletRegex backslash m2;
          m4 = replace_g numberedRegex backslash m3;
          m5 = replace_g linkRegex backslash m4;
          m6 = replace_g backtickRegex backslash m5;
          m7 = replace_g quoteRegex backslash m6;
          m8 = replace_g ruleRegex backslash m7;
          m9 = replace_g pipeRegex backslash m8;
          m10 = replace_g taskRegex backslash m9
      in wrap_html_tags m10)"

definition escape_markdown :: "jsstring \<times> bool \<Rightarrow> jsstring \<times> bool" where
  "escape_markdown = (\<lambda>(markdown, applied).
     let originalMarkdown = markdown;
         markdown' = escape_passes markdown
     in (markdown', originalMarkdown \<noteq> markdown'))"

section \<open>Blank lines\<close>

text \<open>\<^verbatim>\<open>/\r\n/g\<close> and \<^verbatim>\<open>/\n{3,}/g\<close>.\<close>

definition crlfRegex :: matcher where
  "crlfRegex prev s = (if prefix [CR, LF] s then Some 2 else None)"

definition normalize_line_endings :: "jsstring \<Rightarrow> jsstring" where
  "normalize_line_endings markdown = replace_g crlfRegex (\<lambda>mt. [LF]) markdown"

definition blankRunRegex :: matcher where
  "blankRunRegex prev s =
     (let n = run (\<lambda>c. c = LF) s in if 3 \<le> n then Some n else None)"

definition collapse_blank_runs :: "jsstring \<Rightarrow> jsstring" where
  "collapse_blank_runs markdown = replace_g blankRunRegex (\<lambda>mt. [LF, LF]) markdown"

text \<open>Lines 136 to 147.\<close>

definition convert_to_single_spaced :: "settings \<Rightarrow> jsstring \<times> bool \<Rightarrow> jsstring \<times> bool" where
  "convert_to_single_spaced cfg = (\<lambda>(markdown, applied).
     if convertToSingleSpaced cfg \<and> \<not> removeEmptyLines cfg then
       (let markdown1 = normalize_line_endings markdown;
            originalMarkdown = markdown1;
            markdown2 = collapse_blank_runs markdown1
        in (markdown2, if originalMarkdown \<noteq> markdown2 then True else applied))
     else (markdown, applied))"

text \<open>\<^verbatim>\<open>split('\n')\<close> and \<^verbatim>\<open>join('\n')\<close>.\<close>

fun split_lines :: "jsstring \<Rightarrow> jsstring list" where
  "split_lines [] = [[]]"
| "split_lines (c # cs) =
     (if c = LF then [] # split_lines cs
      else (case split_lines cs of
              [] \<Rightarrow> [[c]]
            | l # ls \<Rightarrow> (c # l) # ls))"

fun join_lines :: "jsstring list \<Rightarrow> jsstring" where
  "join_lines [] = []"
| "join_lines [l] = l"
| "join_lines (l # ls) = l @ LF # join_lines ls"

definition trim :: "jsstring \<Rightarrow> jsstring" where
  "trim s = rev (dropWhile is_space (rev (dropWhile is_space s)))"

text \<open>\<^verbatim>\<open>test\<close> of an expression with no anchor: a match may start anywhere.\<close>

fun search :: "(jsstring \<Rightarrow> bool) \<Rightarrow> jsstring \<Rightarrow> bool" where
  "search P [] = P []"
| "search P (c # cs) = (P (c # cs) \<or> search P cs)"

text \<open>\<^verbatim>\<open>.*?\<close> followed by a literal: the literal, after code units that are no line
  terminators.\<close>

fun lazy_dots_then :: "jsstring \<Rightarrow> jsstring \<Rightarrow> bool" where
  "lazy_dots_then lit [] = prefix lit []"
| "lazy_dots_then lit (c # cs) =
     (prefix lit (c # cs) \<or> (\<not> is_line_terminator c \<and> lazy_dots_then lit cs))"

text \<open>An opening \<^verbatim>\<open><p ...\<close> with the given attribute, \<^verbatim>\<open>[^>]*>\<close> (up to the next \<^verbatim>\<open>>\<close>),
  \<^verbatim>\<open>.*?\<close> and \<^verbatim>\<open></p>\<close>.\<close>

definition paragraph_at :: "jsstring \<Rightarrow> jsstring \<Rightarrow> bool" where
  "paragraph_at opening s =
     (prefix opening s \<and>
      (let t = drop (length opening) s; j = run (\<lambda>x. x \<noteq> GREATER) t
       in j < length t \<and> lazy_dots_then (js ''</p>'') (drop (Suc j) t)))"

definition hasPreserveMarker :: "jsstring \<Rightarrow> bool" where
  "hasPreserveMarker currentLine \<longleftrightarrow>
     search (paragraph_at (js ''<p class=\"preserve-line-break\"'')) currentLine \<or>
     search (paragraph_at (js ''<p data-preserve=\"true\"'')) currentLine"

text \<open>\<^verbatim>\<open>/^\s*-{3,}\s*$/\<close> (no \<^verbatim>\<open>m\<close> flag: the whole line).\<close>

definition is_rule_line :: "jsstring \<Rightarrow> bool" where
  "is_rule_line l =
     (let t = dropWhile is_space l; k = run (\<lambda>c. c = DASH) t
      in 3 \<le> k \<and> list_all is_space (drop k t))"

text \<open>\<^verbatim>\<open>/^\s*\|.*\|/\<close>.\<close>

definition is_table_line :: "jsstring \<Rightarrow> bool" where
  "is_table_line l =
     (case dropWhile is_space l of
        [] \<Rightarrow> False
      | c # u \<Rightarrow> c = PIPE \<and> PIPE \<in> set (takeWhile (\<lambda>x. \<not> is_line_terminator x) u))"

text \<open>\<^verbatim>\<open>/^#{1,6}\s/\<close>.\<close>

definition is_heading_line :: "jsstring \<Rightarrow> bool" where
  "is_heading_line l \<longleftrightarrow> heading_at l \<noteq> None"

text \<open>The body of the loop of lines 159 to 199, at index \<open>i\<close> of \<open>lines\<close>: what it pushes,
  if anything.\<close>

definition filter_line :: "bool \<Rightarrow> jsstring list \<Rightarrow> nat \<Rightarrow> jsstring option" where
  "filter_line preserveLineBreaks lines i =
     (let currentLine = lines ! i;
          nextLine = (if i + 1 < length lines then Some (lines ! (i + 1)) else None);
          isCurrentLineEmpty = (trim currentLine = [])
      in if preserveLineBreaks \<and> hasPreserveMarker currentLine then Some []
         else if isCurrentLineEmpty \<and> (case nextLine of None \<Rightarrow> False | Some n \<Rightarrow> is_rule_line n)
           then Some currentLine
         else if isCurrentLineEmpty \<and> (case nextLine of None \<Rightarrow> False | Some n \<Rightarrow> is_table_line n)
           then Some currentLine
         else if isCurrentLineEmpty \<and> i > 0 \<and> is_heading_line (lines ! (i - 1))
           then Some currentLine
         else if \<not> isCurrentLineEmpty then Some currentLine
         else None)"

text \<open>The loop: \<open>i\<close> from 0 to the last index.\<close>

definition filter_lines :: "bool \<Rightarrow> jsstring list \<Rightarrow> jsstring list" where
  "filter_lines preserveLineBreaks lines =
     List.map_filter (filter_line preserveLineBreaks lines) [0..<length lines]"

text \<open>Lines 150 to 205.\<close>

definition remove_empty_lines :: "settings \<Rightarrow> jsstring \<times> bool \<Rightarrow> jsstring \<times> bool" where
  "remove_empty_lines cfg = (\<lambda>(markdown, applied).
     if removeEmptyLines cfg then
       (let preserveLineBreaks = \<not> stripLineBreaks cfg;
            markdown1 = normalize_line_endings markdown;
            filteredLines = filter_lines preserveLineBreaks (split_lines markdown1);
            originalMarkdown = markdown1;
            markdown2 = join_lines filteredLines
        in (markdown2, applied \<or> originalMarkdown \<noteq> markdown2))
     else (markdown, applied))"

section \<open>Substitution rules\<close>

text \<open>
  The patterns of the rules are the user's, so the expressions they denote are not part of
  this program: \<^verbatim>\<open>new RegExp(pattern, 'g')\<close> and \<^verbatim>\<open>markdown.replace(regex, replacement)\<close>
  are operations of the runtime, taken here as a parameter. Either may raise.
\<close>

datatype js_error = SyntaxError | RangeError

record 're regexp_engine =
  new_RegExp :: "jsstring \<Rightarrow> js_error + 're"
  replace_RegExp :: "jsstring \<Rightarrow> 're \<Rightarrow> jsstring \<Rightarrow> js_error + jsstring"

text \<open>A literal expression such as \<^verbatim>\<open>/\\n/g\<close>.\<close>

definition literalRegex :: "jsstring \<Rightarrow> matcher" where
  "literalRegex lit prev s = (if lit \<noteq> [] \<and> prefix lit s then Some (length lit) else None)"

text \<open>Lines 212 to 219.\<close>

definition decode_replacement :: "jsstring \<Rightarrow> jsstring" where
  "decode_replacement r =
     (let r1 = replace_g (literalRegex [BACKSLASH, 0x72, BACKSLASH, 0x6E]) (\<lambda>mt. [CR, LF]) r;
          r2 = replace_g (literalRegex [BACKSLASH, 0x6E]) (\<lambda>mt. [LF]) r1;
          r3 = replace_g (literalRegex [BACKSLASH, 0x72]) (\<lambda>mt. [CR]) r2;
          r4 = replace_g (literalRegex [BACKSLASH, 0x74]) (\<lambda>mt. [TAB]) r3;
          r5 = replace_g (literalRegex [BACKSLASH, QUOTE]) (\<lambda>mt. [QUOTE]) r4;
          r6 = replace_g (literalRegex [BACKSLASH, DQUOTE]) (\<lambda>mt. [DQUOTE]) r5
      in replace_g (literalRegex [BACKSLASH, BACKSLASH]) (\<lambda>mt. [BACKSLASH]) r6)"

text \<open>The body of the \<^verbatim>\<open>try\<close> block, lines 211 to 226: an exception is the value \<open>Inl\<close>.\<close>

definition try_replacement :: "'re regexp_engine \<Rightarrow> rule \<Rightarrow> jsstring \<times> bool \<Rightarrow> js_error + jsstring \<times> bool" where
  "try_replacement engine regex_replacement = (\<lambda>(markdown, applied).
     case new_RegExp engine (pattern regex_replacement) of
       Inl e \<Rightarrow> Inl e
     | Inr regex \<Rightarrow>
         (let replacement' = decode_replacement (replacement regex_replacement);
              originalMarkdown = markdown
          in case replace_RegExp engine markdown regex replacement' of
               Inl e \<Rightarrow> Inl e
             | Inr markdown' \<Rightarrow>
                 Inr (markdown', if originalMarkdown \<noteq> markdown' then True else applied)))"

text \<open>One turn of the loop: the \<^verbatim>\<open>catch\<close> block logs the error and goes on with the
  variables as they were.\<close>

definition apply_replacement :: "'re regexp_engine \<Rightarrow> rule \<Rightarrow> jsstring \<times> bool \<Rightarrow> jsstring \<times> bool" where
  "apply_replacement engine regex_replacement st =
     (case try_replacement engine regex_replacement st of
        Inl e \<Rightarrow> st
      | Inr st' \<Rightarrow> st')"

text \<open>Lines 208 to 231.\<close>

definition apply_replacements :: "'re regexp_engine \<Rightarrow> rule list \<Rightarrow> jsstring \<times> bool \<Rightarrow> jsstring \<times> bool" where
  "apply_replacements engine rules st = fold (apply_replacement engine) rules st"

section \<open>The transformation\<close>

definition transformMarkdown ::
  "'re regexp_engine \<Rightarrow> jsstring \<Rightarrow> settings \<Rightarrow> int \<Rightarrow> bool \<Rightarrow> jsstring \<times> bool" where
  "transformMarkdown engine markdown cfg contextLevel escapeMarkdown =
     (let s0 = (markdown, False);
          s1 = (if \<not> escapeMarkdown then normalize_headings cfg contextLevel s0
                else escape_markdown s0);
          s2 = convert_to_single_spaced cfg s1;
          s3 = remove_empty_lines cfg s2
      in apply_replacements engine (markdownRegexReplacements cfg) s3)"

section \<open>Notions the properties are stated with\<close>

text \<open>The heading markers of a text, in document order, with what lies between them.\<close>

definition heading_pieces :: "jsstring \<Rightarrow> piece list" where
  "heading_pieces markdown = pieces headingRegex None markdown"

text \<open>The level of each heading marker: the number of \<^verbatim>\<open>#\<close> of the match.\<close>

definition levels :: "piece list \<Rightarrow> int list" where
  "levels ps =
     concat (map (\<lambda>p. case p of Keep c \<Rightarrow> [] | Hit mt \<Rightarrow> [int (length (butlast mt))]) ps)"

text \<open>The text in which the markers have the given levels, one level per marker.\<close>

fun render :: "piece list \<Rightarrow> int list \<Rightarrow> jsstring" where
  "render [] ls = []"
| "render (Keep c # ps) ls = c # render ps ls"
| "render (Hit mt # ps) (l # ls) = heading_text l @ render ps ls"
| "render (Hit mt # ps) [] = mt @ render ps []"

text \<open>The new levels a level function of the code assigns, its closure state threaded
  through the markers.\<close>

fun new_levels :: "(closure \<Rightarrow> int \<Rightarrow> int \<times> closure) \<Rightarrow> closure \<Rightarrow> int list \<Rightarrow> int list" where
  "new_levels lv st [] = []"
| "new_levels lv st (currentLevel # rest) =
     (let (newLevel, st1) = lv st currentLevel in newLevel # new_levels lv st1 rest)"

definition heading_new_levels :: "settings \<Rightarrow> int \<Rightarrow> jsstring \<Rightarrow> int list" where
  "heading_new_levels cfg contextLevel markdown =
     new_levels
       (if contextualCascade cfg \<and> contextLevel > 0 then contextual_level contextLevel
        else max_level (maxHeadingLevel cfg) (cascadeHeadingLevels cfg))
       \<lparr>delta = -1, cascading = False\<rparr> (levels (heading_pieces markdown))"

text \<open>Contextual cascade as the specification words it: a state \<open>(delta, cascading)\<close>; a
  marker met while cascading moves by \<open>delta\<close>, capped at 6; otherwise a marker whose level
  is at most the context level moves to the context level plus one, capped at 6, fixes
  \<open>delta\<close> and starts the cascade; any other marker keeps its level.\<close>

fun contextual_spec :: "int \<Rightarrow> int \<times> bool \<Rightarrow> int list \<Rightarrow> int list" where
  "contextual_spec contextLevel (d, casc) [] = []"
| "contextual_spec contextLevel (d, casc) (currentLevel # rest) =
     (if casc then min (currentLevel + d) 6 # contextual_spec contextLevel (d, casc) rest
      else if currentLevel \<le> contextLevel then
        min (contextLevel + 1) 6
          # contextual_spec contextLevel (min (contextLevel + 1) 6 - currentLevel, True) rest
      else currentLevel # contextual_spec contextLevel (d, casc) rest)"

text \<open>Max-level cascade as the specification words it: the markers before the first one
  whose level is less than the maximum keep their levels, that one (the trigger) moves to
  the maximum, and every later one moves by the trigger's distance, capped at 6.\<close>

definition max_cascade_spec :: "int \<Rightarrow> int list \<Rightarrow> int list" where
  "max_cascade_spec maxLevel ls =
     (case dropWhile (\<lambda>l. \<not> l < maxLevel) ls of
        [] \<Rightarrow> ls
      | trigger # later \<Rightarrow>
          takeWhile (\<lambda>l. \<not> l < maxLevel) ls
            @ maxLevel # map (\<lambda>l. min (l + (maxLevel - trigger)) 6) later)"

text \<open>The shape both heading callbacks have.\<close>

definition level_callback ::
  "(closure \<Rightarrow> int \<Rightarrow> int \<times> closure) \<Rightarrow> closure \<times> bool \<Rightarrow> jsstring \<Rightarrow> jsstring \<times> closure \<times> bool" where
  "level_callback lv = (\<lambda>(st, applied) mt.
     let currentLevel = int (length (butlast mt));
         (newLevel, st1) = lv st currentLevel
     in (heading_text newLevel, st1, newLevel \<noteq> currentLevel))"

text \<open>The clamp of the max-level mode without cascading, as one replacement: every marker
  gets the deeper of its level and the maximum.\<close>

definition clamp_text :: "int \<Rightarrow> jsstring \<Rightarrow> jsstring" where
  "clamp_text maxLevel mt = heading_text (max (int (length (butlast mt))) maxLevel)"

definition clamp_headings :: "int \<Rightarrow> jschar option \<Rightarrow> jsstring \<Rightarrow> jsstring" where
  "clamp_headings maxLevel prev s = substitute (clamp_text maxLevel) (pieces headingRegex prev s)"

text \<open>The second and the sixth pass of the escaper on their own (lines 103 and 111): a
  backslash before every \<^verbatim>\<open>**\<close>, \<^verbatim>\<open>__\<close>, \<^verbatim>\<open>*\<close> and \<^verbatim>\<open>_\<close>, and a backslash before every run of
  up to three backticks.\<close>

definition escape_emphasis :: "jsstring \<Rightarrow> jsstring" where
  "escape_emphasis s = replace_g emphasisRegex backslash s"

definition escape_backticks :: "jsstring \<Rightarrow> jsstring" where
  "escape_backticks s = replace_g backtickRegex backslash s"



text \<open>Text and flag after the first stage (headings or escaping), after the collapser and
  after the filter.\<close>

definition stage1 :: "settings \<Rightarrow> int \<Rightarrow> bool \<Rightarrow> jsstring \<Rightarrow> jsstring \<times> bool" where
  "stage1 cfg contextLevel escapeMarkdown markdown =
     (if \<not> escapeMarkdown then normalize_headings cfg contextLevel (markdown, False)
      else escape_markdown (markdown, False))"

definition stage2 :: "settings \<Rightarrow> int \<Rightarrow> bool \<Rightarrow> jsstring \<Rightarrow> jsstring \<times> bool" where
  "stage2 cfg contextLevel escapeMarkdown markdown =
     convert_to_single_spaced cfg (stage1 cfg contextLevel escapeMarkdown markdown)"

definition stage3 :: "settings \<Rightarrow> int \<Rightarrow> bool \<Rightarrow> jsstring \<Rightarrow> jsstring \<times> bool" where
  "stage3 cfg contextLevel escapeMarkdown markdown =
     remove_empty_lines cfg (stage2 cfg contextLevel escapeMarkdown markdown)"

text \<open>The lines the empty-line filter treats specially, read off the text of the line: a
  blank line has white space only; a heading-marker line starts with one to six \<^verbatim>\<open>#\<close>
  followed, within the line, by a white-space code unit; a horizontal-rule line is three or
  more \<^verbatim>\<open>-\<close> once the white space around them is trimmed. A blank line at index \<^verbatim>\<open>i\<close>
  has an adjacency exception when the line before it is a heading-marker line, or the
  line after it is a horizontal-rule line or the start of a table.\<close>

definition blank_line :: "jsstring \<Rightarrow> bool" where
  "blank_line l \<longleftrightarrow> list_all is_space l"

definition heading_marker_line :: "jsstring \<Rightarrow> bool" where
  "heading_marker_line l \<longleftrightarrow>
     list_ex (\<lambda>k. take k l = replicate k HASH \<and> k < length l \<and> is_space (l ! k)) [1..<7]"

definition horizontal_rule_line :: "jsstring \<Rightarrow> bool" where
  "horizontal_rule_line l \<longleftrightarrow>
     (let d = trim l in 3 \<le> length d \<and> list_all (\<lambda>c. c = DASH) d)"

definition keeps_blank :: "jsstring list \<Rightarrow> nat \<Rightarrow> bool" where
  "keeps_blank lines i \<longleftrightarrow>
     (0 < i \<and> heading_marker_line (lines ! (i - 1)))
     \<or> (i + 1 < length lines
          \<and> (horizontal_rule_line (lines ! (i + 1)) \<or> is_table_line (lines ! (i + 1))))"

text \<open>A run of three code units of a class somewhere in a text.\<close>

fun three_in_a_row :: "(jschar \<Rightarrow> bool) \<Rightarrow> jsstring \<Rightarrow> bool" where
  "three_in_a_row P (a # b # c # s) = (P a \<and> P b \<and> P c \<or> three_in_a_row P (b # c # s))"
| "three_in_a_row P s = False"

text \<open>Settings with every stage off, to run examples with.\<close>

definition settings_off :: settings where
  "settings_off =
     \<lparr>markdownRegexReplacements = [], contextualCascade = False, maxHeadingLevel = 1,
      cascadeHeadingLevels = False, stripLineBreaks = False, convertToSingleSpaced = False,
      removeEmptyLines = False\<rparr>"

text \<open>A stand-in for the runtime's expressions, to run examples with. It is the runtime
  on the patterns the examples use: a pattern of ASCII letters and digits denotes itself
  as a literal, and a replacement without \<^verbatim>\<open>$\<close> is inserted as it is. It refuses every
  other pattern, as the runtime refuses \<^verbatim>\<open>"("\<close>.\<close>

definition literal_engine :: "jsstring regexp_engine" where
  "literal_engine =
     \<lparr>new_RegExp = (\<lambda>p. if p \<noteq> [] \<and> list_all (\<lambda>c. is_letter c \<or> is_digit c) p
                          then Inr p else Inl SyntaxError),
      replace_RegExp = (\<lambda>markdown regex r. Inr (replace_g (literalRegex regex) (\<lambda>mt. r) markdown))\<rparr>"

section \<open>Basic facts about scanning\<close>

lemma substitute_simps [simp]:
  "substitute f [] = []"
  "substitute f (Keep c # ps) = c # substitute f ps"
  "substitute f (Hit mt # ps) = f mt @ substitute f ps"
  by (simp_all add: substitute_def)

text \<open>A matcher that does not look behind scans the same from any position.\<close>

lemma pieces_prev_irrelevant:
  assumes "\<And>p q t. m p t = m q t"
  shows "pieces m p s = pieces m q s"
proof (induction s arbitrary: p q rule: length_induct)
  case (1 s)
  show ?case
  proof (cases s)
    case Nil
    then show ?thesis by simp
  next
    case (Cons c cs)
    have m: "m p (c # cs) = m q (c # cs)" by (rule assms)
    have cs: "pieces m (Some c) cs = pieces m (Some c) cs" ..
    show ?thesis
    proof (cases "m q (c # cs)")
      case None
      with m Cons show ?thesis by simp
    next
      case (Some n)
      show ?thesis
      proof (cases "0 < n \<and> n \<le> length (c # cs)")
        case True
        then have "length (drop n (c # cs)) < length s" using Cons by simp
        with 1 have "pieces m (Some ((c # cs) ! (n - 1))) (drop n (c # cs))
                     = pieces m (Some ((c # cs) ! (n - 1))) (drop n (c # cs))" by blast
        with m Some True Cons show ?thesis by simp
      next
        case False
        with m Some Cons show ?thesis by simp
      qed
    qed
  qed
qed

lemma run_Nil [simp]: "run P [] = 0"
  by (simp add: run_def)

lemma run_Cons [simp]: "run P (c # cs) = (if P c then Suc (run P cs) else 0)"
  by (simp add: run_def)

lemma run_le_length: "run P s \<le> length s"
  by (simp add: run_def length_takeWhile_le)

lemma run_drop_run [simp]: "run P (drop (run P s) s) = 0"
  by (induction s) simp_all

lemma run_replicate_stop:
  assumes "P x" "t = [] \<or> \<not> P (hd t)"
  shows "run P (replicate k x @ t) = k"
proof -
  have "run P t = 0" using assms(2) by (cases t) auto
  then show ?thesis using assms(1) by (induction k) auto
qed

lemma run_decompose:
  "s = replicate (run (\<lambda>c. c = x) s) x @ drop (run (\<lambda>c. c = x) s) s
   \<and> (drop (run (\<lambda>c. c = x) s) s = [] \<or> hd (drop (run (\<lambda>c. c = x) s) s) \<noteq> x)"
  by (induction s) auto

text \<open>Every match the scan reports is one the matcher answered, somewhere in the text.\<close>

lemma pieces_Hit:
  assumes "Hit mt \<in> set (pieces m prev s)"
  shows "\<exists>p t. m p t = Some (length mt) \<and> mt = take (length mt) t
                \<and> 0 < length mt \<and> length mt \<le> length t"
  using assms
proof (induction s arbitrary: prev rule: length_induct)
  case (1 s)
  show ?case
  proof (cases s)
    case Nil
    with 1(2) show ?thesis by simp
  next
    case (Cons c cs)
    have keep: "Hit mt \<in> set (pieces m (Some c) cs) \<Longrightarrow> ?thesis"
    proof -
      assume h: "Hit mt \<in> set (pieces m (Some c) cs)"
      have "length cs < length s" using Cons by simp
      with 1(1) h show ?thesis by blast
    qed
    show ?thesis
    proof (cases "m prev (c # cs)")
      case None
      with 1(2) Cons keep show ?thesis by simp
    next
      case (Some n)
      show ?thesis
      proof (cases "0 < n \<and> n \<le> length (c # cs)")
        case False
        with 1(2) Cons Some keep show ?thesis by auto
      next
        case True
        then have split: "pieces m prev s = Hit (take n (c # cs))
            # pieces m (Some ((c # cs) ! (n - 1))) (drop n (c # cs))"
          using Cons Some by simp
        show ?thesis
        proof (cases "mt = take n (c # cs)")
          case True
          have "length mt = n" using True \<open>0 < n \<and> n \<le> length (c # cs)\<close> by simp
          then show ?thesis using Some True \<open>0 < n \<and> n \<le> length (c # cs)\<close> by blast
        next
          case False
          with 1(2) split have "Hit mt \<in> set (pieces m (Some ((c # cs) ! (n - 1))) (drop n (c # cs)))"
            by simp
          moreover have "length (drop n (c # cs)) < length s" using True Cons by simp
          ultimately show ?thesis using 1(1) by blast
        qed
      qed
    qed
  qed
qed

text \<open>Putting every match back gives the text back.\<close>

lemma substitute_id: "substitute (\<lambda>mt. mt) (pieces m prev s) = s"
proof (induction s arbitrary: prev rule: length_induct)
  case (1 s)
  show ?case
  proof (cases s)
    case Nil
    then show ?thesis by simp
  next
    case (Cons c cs)
    have keep: "substitute (\<lambda>mt. mt) (pieces m (Some c) cs) = cs"
      using 1 Cons by simp
    show ?thesis
    proof (cases "m prev (c # cs)")
      case None
      with Cons keep show ?thesis by simp
    next
      case (Some n)
      show ?thesis
      proof (cases "0 < n \<and> n \<le> length (c # cs)")
        case False
        with Cons Some keep show ?thesis by auto
      next
        case True
        then have "length (drop n (c # cs)) < length s" using Cons by simp
        with 1 have "substitute (\<lambda>mt. mt) (pieces m (Some ((c # cs) ! (n - 1))) (drop n (c # cs)))
            = drop n (c # cs)" by blast
        with True Cons Some show ?thesis by (simp del: take_Suc_Cons drop_Suc_Cons)
      qed
    qed
  qed
qed

text \<open>The normalization of line endings, code unit by code unit.\<close>

lemma normalize_Nil [simp]: "normalize_line_endings [] = []"
  by (simp add: normalize_line_endings_def replace_g_def)

lemma crlf_irrelevant: "pieces crlfRegex (Some x) t = pieces crlfRegex None t"
  by (rule pieces_prev_irrelevant) (simp add: crlfRegex_def)

lemma normalize_crlf [simp]:
  "normalize_line_endings (CR # LF # t) = LF # normalize_line_endings t"
  by (simp add: normalize_line_endings_def replace_g_def crlfRegex_def crlf_irrelevant)

lemma normalize_other:
  assumes "\<not> (c = CR \<and> (\<exists>u. t = LF # u))"
  shows "normalize_line_endings (c # t) = c # normalize_line_endings t"
proof -
  have "crlfRegex None (c # t) = None"
    using assms by (cases t) (auto simp: crlfRegex_def)
  then show ?thesis
    by (simp add: normalize_line_endings_def replace_g_def crlf_irrelevant)
qed

text \<open>Every CR LF pair of a text is an LF in the normalized text.\<close>

lemma normalize_append_crlf:
  "normalize_line_endings (a @ CR # LF # b)
     = normalize_line_endings a @ LF # normalize_line_endings b"
proof (induction a rule: length_induct)
  case (1 a)
  show ?case
  proof (cases a)
    case Nil
    then show ?thesis by simp
  next
    case (Cons c t)
    show ?thesis
    proof (cases "c = CR \<and> (\<exists>u. t = LF # u)")
      case True
      then obtain u where u: "t = LF # u" and c: "c = CR" by blast
      have "length u < length a" using Cons u by simp
      with 1 have "normalize_line_endings (u @ CR # LF # b)
          = normalize_line_endings u @ LF # normalize_line_endings b" by blast
      with Cons u c show ?thesis by simp
    next
      case False
      then have "\<not> (c = CR \<and> (\<exists>u. t @ CR # LF # b = LF # u))"
        by (cases t) auto
      then have "normalize_line_endings (c # (t @ CR # LF # b))
          = c # normalize_line_endings (t @ CR # LF # b)" by (rule normalize_other)
      moreover have "normalize_line_endings (t @ CR # LF # b)
          = normalize_line_endings t @ LF # normalize_line_endings b"
        using 1 Cons by simp
      ultimately show ?thesis using Cons normalize_other [OF False] by simp
    qed
  qed
qed

section \<open>Properties of the heading normalizer\<close>

lemma contextual_callback_level:
  "contextual_callback ctx = level_callback (contextual_level ctx)"
  by (simp add: contextual_callback_def level_callback_def)

lemma max_level_callback_level:
  "max_level_callback M c = level_callback (max_level M c)"
  by (simp add: max_level_callback_def level_callback_def)

lemma levels_simps [simp]:
  "levels [] = []"
  "levels (Keep c # ps) = levels ps"
  "levels (Hit mt # ps) = int (length (butlast mt)) # levels ps"
  by (simp_all add: levels_def)

lemma length_new_levels [simp]: "length (new_levels lv st ls) = length ls"
  by (induction ls arbitrary: st) (simp_all split: prod.splits)

lemma new_levels_Nil_iff [simp]: "new_levels lv st ls = [] \<longleftrightarrow> ls = []"
  using length_new_levels [of lv st ls] by (simp only: length_0_conv [symmetric])

text \<open>What a replacement with a heading callback computes: the text rendered from the
  new levels, and a flag that the last marker alone decides.\<close>

lemma substitute_level_callback:
  "substitute_cb (level_callback lv) (st, a) ps =
     (render ps (new_levels lv st (levels ps)),
      fold (\<lambda>l s. snd (lv s l)) (levels ps) st,
      (if levels ps = [] then a
       else last (new_levels lv st (levels ps)) \<noteq> last (levels ps)))"
proof (induction ps arbitrary: st a)
  case Nil
  show ?case by simp
next
  case (Cons p ps)
  show ?case
  proof (cases p)
    case (Keep c)
    then show ?thesis using Cons.IH [of st a] by simp
  next
    case (Hit mt)
    obtain n st1 where lv: "lv st (int (length (butlast mt))) = (n, st1)"
      by (cases "lv st (int (length (butlast mt)))")
    show ?thesis
      using Cons.IH [of st1 "n \<noteq> int (length (butlast mt))"] Hit lv
      by (cases "levels ps = []") (simp_all add: level_callback_def)
  qed
qed

lemma normalize_headings_contextual:
  assumes "contextualCascade cfg" "ctx > 0"
  shows "normalize_headings cfg ctx (md, a) =
    (render (heading_pieces md) (heading_new_levels cfg ctx md),
     if levels (heading_pieces md) = [] then a
     else last (heading_new_levels cfg ctx md) \<noteq> last (levels (heading_pieces md)))"
  using assms
  by (simp add: normalize_headings_def replace_cb_def contextual_callback_level
      substitute_level_callback heading_pieces_def heading_new_levels_def)

lemma normalize_headings_max:
  assumes "\<not> (contextualCascade cfg \<and> ctx > 0)" "maxHeadingLevel cfg > 1"
  shows "normalize_headings cfg ctx (md, a) =
    (render (heading_pieces md) (heading_new_levels cfg ctx md),
     if levels (heading_pieces md) = [] then a
     else last (heading_new_levels cfg ctx md) \<noteq> last (levels (heading_pieces md)))"
proof -
  from assms(1) have "(contextualCascade cfg \<and> ctx > 0) = False" by simp
  with assms(2) show ?thesis
    unfolding normalize_headings_def replace_cb_def max_level_callback_level
      heading_pieces_def heading_new_levels_def
    by (simp only: if_False if_True split_conv substitute_level_callback Let_def)
qed

lemma new_levels_contextual:
  "new_levels (contextual_level ctx) \<lparr>delta = d, cascading = c\<rparr> ls = contextual_spec ctx (d, c) ls"
  by (induction ls arbitrary: d c) (simp_all add: contextual_level_def Let_def)

lemma new_levels_cascading:
  "new_levels (max_level M True) \<lparr>delta = d, cascading = True\<rparr> ls = map (\<lambda>l. min (l + d) 6) ls"
  by (induction ls) (simp_all add: max_level_def)

lemma max_cascade_spec_Cons:
  "max_cascade_spec M (l # ls) =
     (if l < M then M # map (\<lambda>x. min (x + (M - l)) 6) ls else l # max_cascade_spec M ls)"
proof (cases "l < M")
  case True
  then show ?thesis by (simp add: max_cascade_spec_def)
next
  case False
  then show ?thesis
    by (cases "dropWhile (\<lambda>l. \<not> l < M) ls")
       (simp_all add: max_cascade_spec_def del: dropWhile_eq_Nil_conv)
qed

lemma new_levels_max_cascade:
  "new_levels (max_level M True) \<lparr>delta = d, cascading = False\<rparr> ls = max_cascade_spec M ls"
proof (induction ls)
  case Nil
  show ?case by (simp add: max_cascade_spec_def)
next
  case (Cons l ls)
  have step: "max_level M True \<lparr>delta = d, cascading = False\<rparr> l =
      (if l < M then (M, \<lparr>delta = M - l, cascading = True\<rparr>)
       else (l, \<lparr>delta = d, cascading = False\<rparr>))"
    by (simp add: max_level_def)
  show ?case
    by (simp add: step max_cascade_spec_Cons new_levels_cascading Cons.IH)
qed

lemma heading_at_Some:
  assumes "heading_at t = Some n"
  shows "2 \<le> n \<and> n \<le> 7"
  using assms by (auto simp: heading_at_def Let_def split: if_splits)

lemma heading_levels_range:
  assumes "l \<in> set (levels (heading_pieces md))"
  shows "1 \<le> l \<and> l \<le> 6"
proof -
  from assms obtain mt where mt: "Hit mt \<in> set (heading_pieces md)" and l: "l = int (length (butlast mt))"
    by (auto simp: levels_def split: piece.splits)
  from mt obtain p t where "headingRegex p t = Some (length mt)"
    unfolding heading_pieces_def using pieces_Hit by blast
  then have "heading_at t = Some (length mt)"
    by (simp add: headingRegex_def split: if_splits)
  then have "2 \<le> length mt \<and> length mt \<le> 7" by (rule heading_at_Some)
  with l show ?thesis by simp
qed

text \<open>The length of the rendered text, when every marker has its level in \<^verbatim>\<open>#\<close> and one
  more code unit.\<close>

lemma length_render:
  assumes "\<forall>mt. Hit mt \<in> set ps \<longrightarrow> 0 < length mt"
    and "length ns = length (levels ps)" and "\<forall>n\<in>set ns. 0 \<le> n"
  shows "int (length (render ps ns))
           = int (length (substitute (\<lambda>mt. mt) ps)) + sum_list ns - sum_list (levels ps)"
  using assms
proof (induction ps ns rule: render.induct)
  case (1 ls)
  then show ?case by simp
next
  case (2 c ps ls)
  then show ?case by simp
next
  case (3 mt ps l ls)
  then have "0 < length mt" by simp
  then have "int (length (butlast mt)) = int (length mt) - 1" by (cases mt) simp_all
  with 3 show ?case by (simp add: heading_text_def del: length_butlast)
next
  case (4 mt ps)
  then show ?case by simp
qed

lemma list_all2_le_sum_eq:
  fixes xs ys :: "int list"
  assumes "list_all2 (\<le>) xs ys" and "sum_list xs = sum_list ys"
  shows "xs = ys"
  using assms
proof (induction rule: list_all2_induct)
  case Nil
  show ?case by simp
next
  case (Cons x xs y ys)
  have "sum_list xs \<le> sum_list ys"
    using Cons.hyps(2) by (induction rule: list_all2_induct) auto
  with Cons show ?case by auto
qed

text \<open>No callback lowers a level: while cascading, \<open>delta\<close> is not negative.\<close>

lemma new_levels_ge:
  assumes step: "\<And>st l. cascading st \<longrightarrow> 0 \<le> delta st \<Longrightarrow> 1 \<le> l \<Longrightarrow> l \<le> 6 \<Longrightarrow>
                   l \<le> fst (lv st l) \<and> (cascading (snd (lv st l)) \<longrightarrow> 0 \<le> delta (snd (lv st l)))"
    and "cascading st \<longrightarrow> 0 \<le> delta st" and "\<forall>l\<in>set ls. 1 \<le> l \<and> l \<le> 6"
  shows "list_all2 (\<le>) ls (new_levels lv st ls)"
  using assms(2,3)
proof (induction ls arbitrary: st)
  case Nil
  show ?case by simp
next
  case (Cons l ls)
  obtain n st1 where lv: "lv st l = (n, st1)" by (cases "lv st l")
  from step [of st l] Cons.prems lv have "l \<le> n" and "cascading st1 \<longrightarrow> 0 \<le> delta st1"
    by auto
  with Cons lv show ?case by simp
qed

lemma contextual_level_ge:
  assumes "cascading st \<longrightarrow> 0 \<le> delta st" "1 \<le> l" "l \<le> 6"
  shows "l \<le> fst (contextual_level ctx st l)
         \<and> (cascading (snd (contextual_level ctx st l)) \<longrightarrow> 0 \<le> delta (snd (contextual_level ctx st l)))"
  using assms by (auto simp: contextual_level_def Let_def)

lemma max_level_ge:
  assumes "cascading st \<longrightarrow> 0 \<le> delta st" "1 \<le> l" "l \<le> 6"
  shows "l \<le> fst (max_level M c st l)
         \<and> (cascading (snd (max_level M c st l)) \<longrightarrow> 0 \<le> delta (snd (max_level M c st l)))"
  using assms by (auto simp: max_level_def Let_def)

lemma heading_new_levels_ge:
  "list_all2 (\<le>) (levels (heading_pieces md)) (heading_new_levels cfg ctx md)"
  unfolding heading_new_levels_def
  by (rule new_levels_ge) (auto simp: contextual_level_ge max_level_ge dest: heading_levels_range)

text \<open>A heading stage that leaves the text as it was leaves the flag as it was.\<close>

lemma render_unaltered:
  assumes "render (heading_pieces md) (heading_new_levels cfg ctx md) = md"
  shows "heading_new_levels cfg ctx md = levels (heading_pieces md)"
proof -
  let ?ps = "heading_pieces md" and ?ns = "heading_new_levels cfg ctx md"
  have ge: "list_all2 (\<le>) (levels ?ps) ?ns" by (rule heading_new_levels_ge)
  have pos: "\<forall>mt. Hit mt \<in> set ?ps \<longrightarrow> 0 < length mt"
    unfolding heading_pieces_def using pieces_Hit by blast
  have len: "length ?ns = length (levels ?ps)" using ge by (simp add: list_all2_lengthD)
  have nn: "\<forall>n\<in>set ?ns. 0 \<le> n"
  proof
    fix n assume "n \<in> set ?ns"
    then obtain i where i: "i < length ?ns" "?ns ! i = n" by (auto simp: in_set_conv_nth)
    then have "levels ?ps ! i \<le> n" using ge by (auto simp: list_all2_conv_all_nth)
    moreover have "1 \<le> levels ?ps ! i" using heading_levels_range [of "levels ?ps ! i" md] i len by simp
    ultimately show "0 \<le> n" by simp
  qed
  have "int (length (render ?ps ?ns)) = int (length md) + sum_list ?ns - sum_list (levels ?ps)"
    using length_render [OF pos len nn] by (simp add: substitute_id heading_pieces_def)
  with assms have "sum_list (levels ?ps) = sum_list ?ns" by simp
  with list_all2_le_sum_eq [OF ge] show ?thesis by simp
qed

lemma heading_unaltered_flag:
  assumes "fst (normalize_headings cfg ctx (md, False)) = md"
  shows "normalize_headings cfg ctx (md, False) = (md, False)"
proof (cases "(contextualCascade cfg \<and> ctx > 0) \<or> maxHeadingLevel cfg > 1")
  case True
  have eq: "normalize_headings cfg ctx (md, False) =
    (render (heading_pieces md) (heading_new_levels cfg ctx md),
     if levels (heading_pieces md) = [] then False
     else last (heading_new_levels cfg ctx md) \<noteq> last (levels (heading_pieces md)))"
  proof (cases "contextualCascade cfg \<and> ctx > 0")
    case True
    then show ?thesis by (simp add: normalize_headings_contextual)
  next
    case False
    with True have "maxHeadingLevel cfg > 1" by blast
    with False show ?thesis by (rule normalize_headings_max)
  qed
  with assms have "render (heading_pieces md) (heading_new_levels cfg ctx md) = md" by simp
  then have "heading_new_levels cfg ctx md = levels (heading_pieces md)"
    by (rule render_unaltered)
  with eq assms show ?thesis by (simp add: prod_eq_iff)
next
  case False
  then show ?thesis by (auto simp: normalize_headings_def)
qed

text \<open>
  C1. In contextual cascade mode (the setting on and a context level above 0) the
  normalizer rewrites the heading markers in document order, starting from
  \<open>(delta, cascading) = (-1, false)\<close>: a marker met while cascading gets
  \<open>min (currentLevel + delta) 6\<close>; otherwise a marker with \<open>currentLevel \<le> contextLevel\<close>
  gets \<open>min (contextLevel + 1) 6\<close>, sets \<open>delta\<close> to the difference and starts the cascade;
  otherwise the marker keeps its level.
\<close>

theorem contextual_cascade_levels:
  assumes "contextualCascade cfg" and "contextLevel > 0"
  shows "fst (normalize_headings cfg contextLevel (markdown, applied)) =
           render (heading_pieces markdown)
             (contextual_spec contextLevel (-1, False) (levels (heading_pieces markdown)))"
  using assms
  by (simp add: normalize_headings_contextual heading_new_levels_def new_levels_contextual)

theorem contextual_cascade_levels_witness:
  "contextualCascade (settings_off\<lparr>contextualCascade := True\<rparr>) \<and> (0::int) < 2 \<and>
   levels (heading_pieces (js ''### a\<newline># b\<newline>##### c'')) = [3, 1, 5] \<and>
   contextual_spec 2 (-1, False) [3, 1, 5] = [3, 3, 6] \<and>
   fst (normalize_headings (settings_off\<lparr>contextualCascade := True\<rparr>) 2
          (js ''### a\<newline># b\<newline>##### c'', False))
     = js ''### a\<newline>### b\<newline>###### c''"
proof -
  have h1: "contextualCascade (settings_off\<lparr>contextualCascade := True\<rparr>)"
    by (simp add: settings_off_def)
  have h2: "(0::int) < 2" by simp
  have l: "levels (heading_pieces (js ''### a\<newline># b\<newline>##### c'')) = [3, 1, 5]"
    by code_simp
  have s: "contextual_spec 2 (-1, False) [3, 1, 5] = [3, 3, 6]"
    by simp
  have r: "render (heading_pieces (js ''### a\<newline># b\<newline>##### c'')) [3, 3, 6]
             = js ''### a\<newline>### b\<newline>###### c''"
    by code_simp
  from contextual_cascade_levels [OF h1 h2, of "js ''### a\<newline># b\<newline>##### c''" False]
  show ?thesis using h1 l s r by simp
qed

text \<open>
  C2. In max-level mode with cascading (contextual mode not applicable, a maximum above 1,
  cascading on) the first heading marker whose level is below the maximum moves to the
  maximum and fixes \<open>delta\<close> as the distance it moved; every later marker gets
  \<open>min (currentLevel + delta) 6\<close> with that same \<open>delta\<close>; the markers before it, all
  at the maximum or deeper, keep their levels, and so does every marker when none is
  below the maximum.
\<close>

theorem max_level_cascade_levels:
  assumes "\<not> (contextualCascade cfg \<and> contextLevel > 0)"
    and "maxHeadingLevel cfg > 1"
    and "cascadeHeadingLevels cfg"
  shows "fst (normalize_headings cfg contextLevel (markdown, applied)) =
           render (heading_pieces markdown)
             (max_cascade_spec (maxHeadingLevel cfg) (levels (heading_pieces markdown)))"
proof -
  from assms(1) have no: "(contextualCascade cfg \<and> contextLevel > 0) = False"
    by simp
  have "heading_new_levels cfg contextLevel markdown =
          max_cascade_spec (maxHeadingLevel cfg) (levels (heading_pieces markdown))"
    unfolding heading_new_levels_def no using assms(3)
    by (simp add: new_levels_max_cascade)
  then show ?thesis
    using normalize_headings_max [OF assms(1,2), of markdown applied] by simp
qed

theorem max_level_cascade_levels_witness:
  "levels (heading_pieces (js ''#### a\<newline>## b\<newline># c\<newline>##### d'')) = [4, 2, 1, 5] \<and>
   max_cascade_spec 3 [4, 2, 1, 5] = [4, 3, 2, 6] \<and>
   fst (normalize_headings (settings_off\<lparr>maxHeadingLevel := 3, cascadeHeadingLevels := True\<rparr>) 0
          (js ''#### a\<newline>## b\<newline># c\<newline>##### d'', False))
     = js ''#### a\<newline>### b\<newline>## c\<newline>###### d''"
proof -
  let ?cfg = "settings_off\<lparr>maxHeadingLevel := 3, cascadeHeadingLevels := True\<rparr>"
  let ?md = "js ''#### a\<newline>## b\<newline># c\<newline>##### d''"
  have h1: "\<not> (contextualCascade ?cfg \<and> (0::int) > 0)" by simp
  have h2: "maxHeadingLevel ?cfg > 1" by simp
  have h3: "cascadeHeadingLevels ?cfg" by simp
  have m: "maxHeadingLevel ?cfg = 3" by simp
  have l: "levels (heading_pieces ?md) = [4, 2, 1, 5]"
    by code_simp
  have s: "max_cascade_spec 3 [4, 2, 1, 5] = [4, 3, 2, 6]"
    by (simp add: max_cascade_spec_def)
  have r: "render (heading_pieces ?md) [4, 3, 2, 6] = js ''#### a\<newline>### b\<newline>## c\<newline>###### d''"
    by code_simp
  from max_level_cascade_levels [OF h1 h2 h3, of ?md False]
  show ?thesis unfolding m l s r using l s by simp
qed

text \<open>
  C4. In either heading mode, when the text has at least one heading marker, the flag
  after the stage says whether the new level of the last marker differs from its
  current level, whatever happened to the markers before it: the flag is overwritten at
  each marker, not accumulated. So an earlier marker may be rewritten while the stage
  reports no change, as in the text \<^verbatim>\<open>"# a\n## b"\<close> with a maximum of 2, and in the text
  \<^verbatim>\<open>"# a\n###### b"\<close> under a context of level 1.
\<close>

theorem heading_flag_last_occurrence:
  "((contextualCascade cfg \<and> contextLevel > 0 \<or> maxHeadingLevel cfg > 1) \<longrightarrow>
    levels (heading_pieces markdown) \<noteq> [] \<longrightarrow>
      normalize_headings cfg contextLevel (markdown, applied) =
        (render (heading_pieces markdown) (heading_new_levels cfg contextLevel markdown),
         last (heading_new_levels cfg contextLevel markdown)
           \<noteq> last (levels (heading_pieces markdown))))
   \<and> normalize_headings (settings_off\<lparr>maxHeadingLevel := 2\<rparr>) 0 (js ''# a\<newline>## b'', False)
        = (js ''## a\<newline>## b'', False)
   \<and> normalize_headings (settings_off\<lparr>contextualCascade := True\<rparr>) 1
          (js ''# a\<newline>###### b'', False)
        = (js ''## a\<newline>###### b'', False)"
proof (intro conjI)
  show "(contextualCascade cfg \<and> contextLevel > 0 \<or> maxHeadingLevel cfg > 1) \<longrightarrow>
    levels (heading_pieces markdown) \<noteq> [] \<longrightarrow>
      normalize_headings cfg contextLevel (markdown, applied) =
        (render (heading_pieces markdown) (heading_new_levels cfg contextLevel markdown),
         last (heading_new_levels cfg contextLevel markdown)
           \<noteq> last (levels (heading_pieces markdown)))"
  proof (cases "contextualCascade cfg \<and> contextLevel > 0")
    case True
    then show ?thesis by (simp add: normalize_headings_contextual)
  next
    case False
    then show ?thesis using normalize_headings_max [OF False] by auto
  qed
  show "normalize_headings (settings_off\<lparr>maxHeadingLevel := 2\<rparr>) 0 (js ''# a\<newline>## b'', False)
     = (js ''## a\<newline>## b'', False)"
    by code_simp
  show "normalize_headings (settings_off\<lparr>contextualCascade := True\<rparr>) 1
          (js ''# a\<newline>###### b'', False)
     = (js ''## a\<newline>###### b'', False)"
    by code_simp
qed

theorem heading_flag_last_occurrence_witness:
  "maxHeadingLevel (settings_off\<lparr>maxHeadingLevel := 2\<rparr>) > 1 \<and>
   levels (heading_pieces (js ''# a\<newline>## b'')) = [1, 2] \<and>
   heading_new_levels (settings_off\<lparr>maxHeadingLevel := 2\<rparr>) 0 (js ''# a\<newline>## b'') = [2, 2] \<and>
   normalize_headings (settings_off\<lparr>maxHeadingLevel := 2\<rparr>) 0 (js ''# a\<newline>## b'', False)
     = (render (heading_pieces (js ''# a\<newline>## b'')) [2, 2], False)"
proof -
  let ?cfg = "settings_off\<lparr>maxHeadingLevel := 2\<rparr>"
  let ?md = "js ''# a\<newline>## b''"
  have h1: "contextualCascade ?cfg \<and> (0::int) > 0 \<or> maxHeadingLevel ?cfg > 1" by simp
  have l: "levels (heading_pieces ?md) = [1, 2]" by code_simp
  have h2: "levels (heading_pieces ?md) \<noteq> []" unfolding l by simp
  have n: "heading_new_levels ?cfg 0 ?md = [2, 2]" by code_simp
  from heading_flag_last_occurrence [of ?cfg 0 ?md False] h1 h2
  show ?thesis unfolding n l by simp
qed

section \<open>Properties of the blank-line collapser\<close>

lemma collapse_Nil [simp]: "collapse_blank_runs [] = []"
  by (simp add: collapse_blank_runs_def replace_g_def)

lemma collapse_hit:
  assumes "3 \<le> run (\<lambda>c. c = LF) s"
  shows "collapse_blank_runs s = LF # LF # collapse_blank_runs (drop (run (\<lambda>c. c = LF) s) s)"
proof -
  from assms obtain c cs where s: "s = c # cs" by (cases s) auto
  have irr: "\<And>x t. pieces blankRunRegex (Some x) t = pieces blankRunRegex None t"
    by (rule pieces_prev_irrelevant) (simp add: blankRunRegex_def)
  have "blankRunRegex None (c # cs) = Some (run (\<lambda>c. c = LF) (c # cs))"
    using assms s by (simp add: blankRunRegex_def Let_def)
  moreover have "run (\<lambda>c. c = LF) (c # cs) \<le> length (c # cs)" by (rule run_le_length)
  ultimately show ?thesis using assms s
    by (simp add: collapse_blank_runs_def replace_g_def irr del: run_Cons)
qed

lemma collapse_keep:
  assumes "run (\<lambda>c. c = LF) (c # cs) < 3"
  shows "collapse_blank_runs (c # cs) = c # collapse_blank_runs cs"
proof -
  have irr: "\<And>x t. pieces blankRunRegex (Some x) t = pieces blankRunRegex None t"
    by (rule pieces_prev_irrelevant) (simp add: blankRunRegex_def)
  have "blankRunRegex None (c # cs) = None"
    using assms by (simp add: blankRunRegex_def Let_def del: run_Cons)
  then show ?thesis
    by (simp add: collapse_blank_runs_def replace_g_def irr del: run_Cons)
qed

text \<open>The run of line feeds at the head of the output: that of the input, cut at two.\<close>

lemma run_collapse:
  "run (\<lambda>c. c = LF) (collapse_blank_runs s) = min 2 (run (\<lambda>c. c = LF) s)"
proof (induction s rule: length_induct)
  case (1 s)
  show ?case
  proof (cases "3 \<le> run (\<lambda>c. c = LF) s")
    case True
    let ?t = "drop (run (\<lambda>c. c = LF) s) s"
    have "length ?t < length s" using True by (cases s) auto
    with 1 have ih: "run (\<lambda>c. c = LF) (collapse_blank_runs ?t) = min 2 (run (\<lambda>c. c = LF) ?t)"
      by blast
    have "run (\<lambda>c. c = LF) ?t = 0" by simp
    with ih True show ?thesis by (simp add: collapse_hit)
  next
    case False
    show ?thesis
    proof (cases s)
      case Nil
      then show ?thesis by simp
    next
      case (Cons c cs)
      with False have small: "run (\<lambda>c. c = LF) (c # cs) < 3" by simp
      have "length cs < length s" using Cons by simp
      with 1 have ih: "run (\<lambda>c. c = LF) (collapse_blank_runs cs) = min 2 (run (\<lambda>c. c = LF) cs)"
        by blast
      show ?thesis using small ih Cons collapse_keep [OF small] by (auto split: if_splits)
    qed
  qed
qed


lemma three_in_a_row_Cons:
  "three_in_a_row P (c # s) \<longleftrightarrow> (P c \<and> 2 \<le> run P s) \<or> three_in_a_row P s"
proof (cases s)
  case Nil
  then show ?thesis by simp
next
  case (Cons b t)
  then show ?thesis by (cases t) auto
qed

lemma no_three_collapse: "\<not> three_in_a_row (\<lambda>c. c = LF) (collapse_blank_runs s)"
proof (induction s rule: length_induct)
  case (1 s)
  show ?case
  proof (cases "3 \<le> run (\<lambda>c. c = LF) s")
    case True
    let ?t = "drop (run (\<lambda>c. c = LF) s) s"
    have "length ?t < length s" using True by (cases s) auto
    with 1 have ih: "\<not> three_in_a_row (\<lambda>c. c = LF) (collapse_blank_runs ?t)" by blast
    have "run (\<lambda>c. c = LF) (collapse_blank_runs ?t) = 0" by (simp add: run_collapse)
    with ih True show ?thesis by (simp add: collapse_hit three_in_a_row_Cons)
  next
    case False
    show ?thesis
    proof (cases s)
      case Nil
      then show ?thesis by simp
    next
      case (Cons c cs)
      with False have small: "run (\<lambda>c. c = LF) (c # cs) < 3" by simp
      have "length cs < length s" using Cons by simp
      with 1 have ih: "\<not> three_in_a_row (\<lambda>c. c = LF) (collapse_blank_runs cs)" by blast
      show ?thesis using small ih Cons
        by (auto simp add: collapse_keep three_in_a_row_Cons run_collapse split: if_splits)
    qed
  qed
qed


lemma run_append_stop:
  assumes "a \<noteq> []" "\<not> P (last a)"
  shows "run P (a @ t) = run P a"
  using assms by (induction a) (auto split: if_splits)

lemma collapse_append:
  assumes "a \<noteq> [] \<longrightarrow> last a \<noteq> LF"
  shows "collapse_blank_runs (a @ t) = collapse_blank_runs a @ collapse_blank_runs t"
  using assms
proof (induction a rule: length_induct)
  case (1 a)
  show ?case
  proof (cases a)
    case Nil
    then show ?thesis by simp
  next
    case (Cons c cs)
    then have ne: "a \<noteq> []" and la: "last a \<noteq> LF" using 1(2) by auto
    have r: "run (\<lambda>c. c = LF) (a @ t) = run (\<lambda>c. c = LF) a"
      using ne la by (rule run_append_stop)
    show ?thesis
    proof (cases "3 \<le> run (\<lambda>c. c = LF) a")
      case True
      let ?r = "run (\<lambda>c. c = LF) a"
      have le: "?r \<le> length a" by (rule run_le_length)
      have lt: "length (drop ?r a) < length a" using True ne by simp
      have "drop ?r a \<noteq> [] \<longrightarrow> last (drop ?r a) \<noteq> LF" using la by simp
      with 1(1) lt have "collapse_blank_runs (drop ?r a @ t)
          = collapse_blank_runs (drop ?r a) @ collapse_blank_runs t" by blast
      moreover have "drop ?r (a @ t) = drop ?r a @ t" using le by simp
      ultimately show ?thesis using True r
        by (simp add: collapse_hit [of a] collapse_hit [of "a @ t"])
    next
      case False
      have "cs \<noteq> [] \<longrightarrow> last cs \<noteq> LF" using la Cons by auto
      with 1(1) Cons have "collapse_blank_runs (cs @ t)
          = collapse_blank_runs cs @ collapse_blank_runs t" by simp
      moreover have "run (\<lambda>c. c = LF) (c # cs) < 3" using False Cons by simp
      moreover have "run (\<lambda>c. c = LF) (c # (cs @ t)) < 3" using False r Cons by simp
      ultimately show ?thesis using Cons
        by (simp add: collapse_keep del: run_Cons)
    qed
  qed
qed

lemma run_replicate_append:
  assumes "b \<noteq> [] \<longrightarrow> \<not> P (hd b)" "P x"
  shows "run P (replicate n x @ b) = n"
proof -
  have "run P b = 0" using assms(1) by (cases b) auto
  then show ?thesis using assms(2) by (induction n) auto
qed

lemma collapse_run:
  assumes "3 \<le> n" "a \<noteq> [] \<longrightarrow> last a \<noteq> LF" "b \<noteq> [] \<longrightarrow> hd b \<noteq> LF"
  shows "collapse_blank_runs (a @ replicate n LF @ b)
           = collapse_blank_runs a @ LF # LF # collapse_blank_runs b"
proof -
  have "run (\<lambda>c. c = LF) (replicate n LF @ b) = n"
    using run_replicate_append [of b "\<lambda>c. c = LF" LF n] assms(3) by simp
  then have "collapse_blank_runs (replicate n LF @ b) = LF # LF # collapse_blank_runs b"
    using assms(1) collapse_hit [of "replicate n LF @ b"] by simp
  then show ?thesis using collapse_append [OF assms(2)] by simp
qed

text \<open>
  C7, as the code has it. With \<^verbatim>\<open>convertToSingleSpaced\<close> on and \<^verbatim>\<open>removeEmptyLines\<close> off,
  the collapser replaces every CR LF pair by a lone LF (no other line ending is touched)
  and then leaves no run of three or more LF in its output: a run of three or more LF of
  the normalized text, between code units that are not LF, becomes exactly two.
\<close>

theorem blank_run_collapse_bound:
  "convertToSingleSpaced cfg \<longrightarrow> \<not> removeEmptyLines cfg \<longrightarrow>
     fst (convert_to_single_spaced cfg (markdown, applied))
       = collapse_blank_runs (normalize_line_endings markdown)
     \<and> normalize_line_endings (before @ CR # LF # after)
          = normalize_line_endings before @ LF # normalize_line_endings after
     \<and> \<not> three_in_a_row (\<lambda>c. c = LF) (fst (convert_to_single_spaced cfg (markdown, applied)))
     \<and> (3 \<le> n \<longrightarrow> (a \<noteq> [] \<longrightarrow> last a \<noteq> LF) \<longrightarrow> (b \<noteq> [] \<longrightarrow> hd b \<noteq> LF) \<longrightarrow>
          normalize_line_endings markdown = a @ replicate n LF @ b \<longrightarrow>
          fst (convert_to_single_spaced cfg (markdown, applied))
            = collapse_blank_runs a @ [LF, LF] @ collapse_blank_runs b)"
proof (intro impI conjI)
  assume on: "convertToSingleSpaced cfg" and off: "\<not> removeEmptyLines cfg"
  then show out: "fst (convert_to_single_spaced cfg (markdown, applied))
      = collapse_blank_runs (normalize_line_endings markdown)"
    by (simp add: convert_to_single_spaced_def Let_def)
  show "normalize_line_endings (before @ CR # LF # after)
          = normalize_line_endings before @ LF # normalize_line_endings after"
    by (rule normalize_append_crlf)
  show "\<not> three_in_a_row (\<lambda>c. c = LF) (fst (convert_to_single_spaced cfg (markdown, applied)))"
    unfolding out by (rule no_three_collapse)
  assume "3 \<le> n" "a \<noteq> [] \<longrightarrow> last a \<noteq> LF" "b \<noteq> [] \<longrightarrow> hd b \<noteq> LF"
    and "normalize_line_endings markdown = a @ replicate n LF @ b"
  then show "fst (convert_to_single_spaced cfg (markdown, applied))
      = collapse_blank_runs a @ [LF, LF] @ collapse_blank_runs b"
    unfolding out by (simp add: collapse_run)
qed

theorem blank_run_collapse_bound_witness:
  "convertToSingleSpaced (settings_off\<lparr>convertToSingleSpaced := True\<rparr>) \<and>
   \<not> removeEmptyLines (settings_off\<lparr>convertToSingleSpaced := True\<rparr>) \<and>
   normalize_line_endings [0x61, CR, LF, CR, LF, LF, LF, LF, 0x62] = [0x61] @ replicate 5 LF @ [0x62] \<and>
   fst (convert_to_single_spaced (settings_off\<lparr>convertToSingleSpaced := True\<rparr>)
          ([0x61, CR, LF, CR, LF, LF, LF, LF, 0x62], False)) = [0x61, LF, LF, 0x62] \<and>
   \<not> three_in_a_row (\<lambda>c. c = LF) [0x61, LF, LF, 0x62]"
proof -
  let ?cfg = "settings_off\<lparr>convertToSingleSpaced := True\<rparr>"
  let ?md = "[0x61, CR, LF, CR, LF, LF, LF, LF, 0x62] :: jsstring"
  have h1: "convertToSingleSpaced ?cfg" by simp
  have h2: "\<not> removeEmptyLines ?cfg" by (simp add: settings_off_def)
  have h3: "(3::nat) \<le> 5" by simp
  have h4: "[0x61::jschar] \<noteq> [] \<longrightarrow> last [0x61::jschar] \<noteq> LF" by simp
  have h5: "[0x62::jschar] \<noteq> [] \<longrightarrow> hd [0x62::jschar] \<noteq> LF" by simp
  have h6: "normalize_line_endings ?md = [0x61] @ replicate 5 LF @ [0x62]" by code_simp
  have a: "collapse_blank_runs [0x61] = [0x61]" by code_simp
  have b: "collapse_blank_runs [0x62] = [0x62]" by code_simp
  note t = blank_run_collapse_bound [where cfg = ?cfg and markdown = ?md and applied = False
      and n = 5 and a = "[0x61]" and b = "[0x62]" and before = "[0x61]"
      and after = "[CR, LF, LF, LF, LF, 0x62]"]
  have o: "fst (convert_to_single_spaced ?cfg (?md, False))
             = collapse_blank_runs [0x61] @ [LF, LF] @ collapse_blank_runs [0x62]"
    using t h1 h2 h3 h4 h5 h6 by blast
  have n3: "\<not> three_in_a_row (\<lambda>c. c = LF) (fst (convert_to_single_spaced ?cfg (?md, False)))"
    using t h1 h2 by blast
  have v: "fst (convert_to_single_spaced ?cfg (?md, False)) = [0x61, LF, LF, 0x62]"
    unfolding o a b by simp
  show ?thesis using h1 h2 h6 v n3 by (simp only: simp_thms)
qed

text \<open>
  C7, as stated, fails on a text with the line endings of classic Mac OS: a lone CR is a
  line terminator (the \<^verbatim>\<open>^\<close> of this very program takes it as one), the collapser neither
  turns it into LF nor collapses a run of it. It fails for CR LF too when a CR comes
  before the pair: the one pass over \<^verbatim>\<open>/\r\n/g\<close> leaves a CR LF behind, three in a row
  here.
\<close>

theorem blank_run_collapse_counterexample:
  "fst (convert_to_single_spaced (settings_off\<lparr>convertToSingleSpaced := True\<rparr>)
          ([0x61, CR, CR, CR, 0x62], False)) = [0x61, CR, CR, CR, 0x62]
   \<and> three_in_a_row is_line_terminator [0x61, CR, CR, CR, 0x62]
   \<and> fst (convert_to_single_spaced (settings_off\<lparr>convertToSingleSpaced := True\<rparr>)
          ([0x61, CR, CR, LF, CR, CR, LF, CR, CR, LF, 0x62], False))
        = [0x61, CR, LF, CR, LF, CR, LF, 0x62]"
  by code_simp

section \<open>Properties of the empty-line filter\<close>

lemma trim_Nil_iff: "trim s = [] \<longleftrightarrow> (\<forall>c\<in>set s. is_space c)"
proof -
  have "trim s = [] \<longleftrightarrow> (\<forall>c\<in>set (dropWhile is_space s). is_space c)"
    by (simp add: trim_def)
  also have "\<dots> \<longleftrightarrow> dropWhile is_space s = []"
  proof
    assume a: "\<forall>c\<in>set (dropWhile is_space s). is_space c"
    show "dropWhile is_space s = []"
    proof (rule ccontr)
      assume "dropWhile is_space s \<noteq> []"
      then have "\<not> is_space (hd (dropWhile is_space s))" by (rule hd_dropWhile)
      moreover have "hd (dropWhile is_space s) \<in> set (dropWhile is_space s)"
        using \<open>dropWhile is_space s \<noteq> []\<close> by simp
      ultimately show False using a by blast
    qed
  qed (auto dest: set_dropWhileD)
  finally show ?thesis by simp
qed

lemma search_set:
  assumes "search P s" and "\<And>t. P t \<Longrightarrow> t \<noteq> [] \<and> hd t = x"
  shows "x \<in> set s"
  using assms(1)
proof (induction s)
  case Nil
  then show ?case using assms(2) [of "[]"] by simp
next
  case (Cons c cs)
  then show ?case using assms(2) [of "c # cs"] by auto
qed

lemma paragraph_at_hd:
  assumes "paragraph_at (LESS # opening) t"
  shows "t \<noteq> [] \<and> hd t = LESS"
  using assms by (cases t) (auto simp: paragraph_at_def)

lemma js_Cons: "js (c # cs) = of_char c # js cs"
  by (simp add: js_def)

lemma blank_no_marker:
  assumes "trim l = []"
  shows "\<not> hasPreserveMarker l"
proof
  assume "hasPreserveMarker l"
  then have "LESS \<in> set l"
    unfolding hasPreserveMarker_def
    by (auto simp: js_Cons intro: search_set dest!: paragraph_at_hd)
  moreover have "\<not> is_space LESS" by (simp add: is_space_def)
  ultimately show False using assms by (auto simp: trim_Nil_iff)
qed


text \<open>The tests of the filter, line by line, are the notions above.\<close>

lemma blank_line_iff: "trim l = [] \<longleftrightarrow> blank_line l"
  by (simp add: trim_Nil_iff blank_line_def list_all_iff)

lemma run_take: "take (run P l) l = takeWhile P l"
  unfolding run_def by (induction l) auto

lemma takeWhile_eq_replicate: "takeWhile (\<lambda>c. c = x) l = replicate (run (\<lambda>c. c = x) l) x"
  by (induction l) auto

lemma run_unique:
  assumes "take k l = replicate k x" "k < length l" "l ! k \<noteq> x"
  shows "run (\<lambda>c. c = x) l = k"
proof -
  have "l = take k l @ l ! k # drop (Suc k) l"
    using assms(2) by (simp add: id_take_nth_drop)
  then have l: "l = replicate k x @ l ! k # drop (Suc k) l" using assms(1) by simp
  have "run (\<lambda>c. c = x) (replicate k x @ l ! k # drop (Suc k) l) = k"
    by (rule run_replicate_stop) (use assms(3) in simp_all)
  with l show ?thesis by simp
qed

lemma is_heading_line_iff: "is_heading_line l \<longleftrightarrow> heading_marker_line l"
proof
  assume "is_heading_line l"
  then obtain k where k: "k = run (\<lambda>c. c = HASH) l" "1 \<le> k" "k \<le> 6" "k < length l" "is_space (l ! k)"
    by (auto simp: is_heading_line_def heading_at_def Let_def split: if_splits)
  have "take k l = replicate k HASH"
    unfolding k(1) by (simp add: run_take takeWhile_eq_replicate [symmetric])
  moreover have "k \<in> set [1..<7]" using k by simp
  ultimately show "heading_marker_line l"
    unfolding heading_marker_line_def list_ex_iff using k by blast
next
  assume "heading_marker_line l"
  then obtain k where k: "1 \<le> k" "k \<le> 6" "take k l = replicate k HASH" "k < length l" "is_space (l ! k)"
    by (auto simp: heading_marker_line_def list_ex_iff)
  have "l ! k \<noteq> HASH" using k(5) by (auto simp: is_space_def)
  with k have "run (\<lambda>c. c = HASH) l = k" by (intro run_unique)
  with k show "is_heading_line l" by (simp add: is_heading_line_def heading_at_def)
qed

lemma dropWhile_split_trim:
  "dropWhile is_space l = trim l @ rev (takeWhile is_space (rev (dropWhile is_space l)))"
proof -
  let ?t = "dropWhile is_space l"
  have "rev (dropWhile is_space (rev ?t)) @ rev (takeWhile is_space (rev ?t))
          = rev (takeWhile is_space (rev ?t) @ dropWhile is_space (rev ?t))"
    by (simp only: rev_append)
  also have "\<dots> = ?t" by (simp only: takeWhile_dropWhile_id rev_rev_ident)
  finally show ?thesis by (simp only: trim_def)
qed

lemma DASH_not_space: "\<not> is_space DASH"
  by (simp add: is_space_def)

lemma trim_dashes:
  assumes "dropWhile is_space l = replicate k DASH @ b" "list_all is_space b" "0 < k"
  shows "trim l = replicate k DASH"
proof -
  have "dropWhile is_space (rev b @ replicate k DASH) = dropWhile is_space (replicate k DASH)"
    using assms(2) by (intro dropWhile_append2) (simp add: list_all_iff)
  also have "\<dots> = replicate k DASH" using assms(3) by (cases k) (simp_all add: DASH_not_space)
  finally show ?thesis unfolding trim_def assms(1) by simp
qed

lemma rule_line_shape:
  "is_rule_line l \<longleftrightarrow>
     (\<exists>k b. dropWhile is_space l = replicate k DASH @ b \<and> 3 \<le> k \<and> list_all is_space b)"
proof
  define t where "t = dropWhile is_space l"
  define k where "k = run (\<lambda>c. c = DASH) t"
  assume "is_rule_line l"
  then have "3 \<le> k" "list_all is_space (drop k t)"
    by (simp_all add: is_rule_line_def Let_def t_def k_def)
  moreover from run_decompose [of t DASH] have "t = replicate k DASH @ drop k t"
    unfolding k_def by simp
  ultimately show "\<exists>k b. dropWhile is_space l = replicate k DASH @ b \<and> 3 \<le> k \<and> list_all is_space b"
    unfolding t_def by blast
next
  assume "\<exists>k b. dropWhile is_space l = replicate k DASH @ b \<and> 3 \<le> k \<and> list_all is_space b"
  then obtain k b where t: "dropWhile is_space l = replicate k DASH @ b" and k: "3 \<le> k"
    and b: "list_all is_space b" by blast
  have stop: "b = [] \<or> \<not> (\<lambda>c. c = DASH) (hd b)"
    using b by (cases b) (auto simp: DASH_not_space)
  have r: "run (\<lambda>c. c = DASH) (replicate k DASH @ b) = k"
    by (rule run_replicate_stop) (use stop in simp_all)
  show "is_rule_line l"
    unfolding is_rule_line_def Let_def t r using k b by simp
qed

lemma is_rule_line_iff: "is_rule_line l \<longleftrightarrow> horizontal_rule_line l"
proof
  assume "is_rule_line l"
  then obtain k b where t: "dropWhile is_space l = replicate k DASH @ b" and k: "3 \<le> k"
    and b: "list_all is_space b" unfolding rule_line_shape by blast
  from t b have "trim l = replicate k DASH" by (rule trim_dashes) (use k in simp)
  with k show "horizontal_rule_line l" by (simp add: horizontal_rule_line_def list_all_iff)
next
  define d where "d = trim l"
  define b where "b = rev (takeWhile is_space (rev (dropWhile is_space l)))"
  assume "horizontal_rule_line l"
  then have len: "3 \<le> length d" and dash: "\<forall>c\<in>set d. c = DASH"
    by (simp_all add: horizontal_rule_line_def Let_def list_all_iff d_def)
  have "dropWhile is_space l = d @ b" unfolding d_def b_def by (rule dropWhile_split_trim)
  moreover have "d = replicate (length d) DASH"
    using dash by (simp add: replicate_length_same)
  ultimately have "dropWhile is_space l = replicate (length d) DASH @ b" by simp
  moreover have "list_all is_space b"
    unfolding b_def by (auto simp: list_all_iff dest: set_takeWhileD)
  ultimately show "is_rule_line l" unfolding rule_line_shape using len by blast
qed

lemma filter_line_spec:
  assumes "i < length lines"
  shows "filter_line p lines i =
           (if p \<and> hasPreserveMarker (lines ! i) then Some []
            else if \<not> blank_line (lines ! i) \<or> keeps_blank lines i then Some (lines ! i)
            else None)"
proof (cases "blank_line (lines ! i)")
  case True
  then have "trim (lines ! i) = []" by (simp add: blank_line_iff)
  moreover from this have "\<not> hasPreserveMarker (lines ! i)" by (rule blank_no_marker)
  ultimately show ?thesis using True
    by (cases "i = 0")
       (auto simp add: filter_line_def Let_def keeps_blank_def is_heading_line_iff is_rule_line_iff)
next
  case False
  then have "trim (lines ! i) \<noteq> []" by (simp add: blank_line_iff)
  with False show ?thesis by (simp add: filter_line_def Let_def)
qed

lemma map_filter_as_filter:
  assumes "\<forall>x\<in>set xs. f x = (if P x then Some (g x) else None)"
  shows "List.map_filter f xs = map g (filter P xs)"
  using assms by (induction xs) (simp_all add: List.map_filter_simps)

lemma filter_lines_spec:
  "filter_lines p lines =
     map (\<lambda>i. if p \<and> hasPreserveMarker (lines ! i) then [] else lines ! i)
       (filter (\<lambda>i. (p \<and> hasPreserveMarker (lines ! i)) \<or> \<not> blank_line (lines ! i)
                    \<or> keeps_blank lines i)
          [0..<length lines])"
  unfolding filter_lines_def
  by (rule map_filter_as_filter) (auto simp: filter_line_spec)


text \<open>
  C6. With \<^verbatim>\<open>removeEmptyLines\<close> on, the empty-line filter turns every text into the
  following one. The text is split into lines once its line endings are normalized. A
  line that carries a preserve marker, when line breaks are preserved, is replaced by an
  empty line. Every other line that is not blank is kept as it is. A blank line is kept
  when the line before it in the original sequence is a heading-marker line, or the line
  after it in the original sequence is a horizontal-rule line (or the start of a table),
  and every blank line with none of these neighbours is removed. The lines that remain
  are joined in their order. A heading-marker line has white space after its run of
  \<^verbatim>\<open>#\<close> within the line. On \<^verbatim>\<open>"# Heading\n\ntext"\<close> the blank line after the heading is
  kept, on \<^verbatim>\<open>"a\n\n---\n"\<close> the blank line before the rule is kept, and \<^verbatim>\<open>"a\n\n\nb"\<close>
  gives \<^verbatim>\<open>"a\nb"\<close>.
\<close>

theorem empty_line_filter_rules:
  "(removeEmptyLines cfg \<longrightarrow>
      fst (remove_empty_lines cfg (markdown, applied)) =
        (let lines = split_lines (normalize_line_endings markdown);
             marked = (\<lambda>i. \<not> stripLineBreaks cfg \<and> hasPreserveMarker (lines ! i))
         in join_lines
              (map (\<lambda>i. if marked i then [] else lines ! i)
                 (filter (\<lambda>i. marked i \<or> \<not> blank_line (lines ! i) \<or> keeps_blank lines i)
                    [0..<length lines]))))
   \<and> transformMarkdown engine (js ''# Heading\<newline>\<newline>text'')
        (settings_off\<lparr>removeEmptyLines := True\<rparr>) 0 False
        = (js ''# Heading\<newline>\<newline>text'', False)
   \<and> transformMarkdown engine (js ''a\<newline>\<newline>---\<newline>'')
        (settings_off\<lparr>removeEmptyLines := True\<rparr>) 0 False
        = (js ''a\<newline>\<newline>---'', True)
   \<and> transformMarkdown engine (js ''a\<newline>\<newline>\<newline>b'')
        (settings_off\<lparr>removeEmptyLines := True\<rparr>) 0 False
        = (js ''a\<newline>b'', True)"
proof (intro conjI impI)
  assume "removeEmptyLines cfg"
  then show "fst (remove_empty_lines cfg (markdown, applied)) =
        (let lines = split_lines (normalize_line_endings markdown);
             marked = (\<lambda>i. \<not> stripLineBreaks cfg \<and> hasPreserveMarker (lines ! i))
         in join_lines
              (map (\<lambda>i. if marked i then [] else lines ! i)
                 (filter (\<lambda>i. marked i \<or> \<not> blank_line (lines ! i) \<or> keeps_blank lines i)
                    [0..<length lines])))"
    by (simp add: remove_empty_lines_def Let_def filter_lines_spec)
next
  show "transformMarkdown engine (js ''# Heading\<newline>\<newline>text'')
        (settings_off\<lparr>removeEmptyLines := True\<rparr>) 0 False
        = (js ''# Heading\<newline>\<newline>text'', False)"
    by code_simp
next
  show "transformMarkdown engine (js ''a\<newline>\<newline>---\<newline>'')
        (settings_off\<lparr>removeEmptyLines := True\<rparr>) 0 False
        = (js ''a\<newline>\<newline>---'', True)"
    by code_simp
next
  show "transformMarkdown engine (js ''a\<newline>\<newline>\<newline>b'')
        (settings_off\<lparr>removeEmptyLines := True\<rparr>) 0 False
        = (js ''a\<newline>b'', True)"
    by code_simp
qed

theorem empty_line_filter_rules_witness:
  "removeEmptyLines (settings_off\<lparr>removeEmptyLines := True\<rparr>)
   \<and> split_lines (normalize_line_endings (js ''# T\<newline>\<newline>x\<newline>\<newline>\<newline>y\<newline>\<newline>---\<newline>''))
       = [js ''# T'', [], js ''x'', [], [], js ''y'', [], js ''---'', []]
   \<and> keeps_blank [js ''# T'', [], js ''x'', [], [], js ''y'', [], js ''---'', []] 1
   \<and> \<not> keeps_blank [js ''# T'', [], js ''x'', [], [], js ''y'', [], js ''---'', []] 3
   \<and> \<not> keeps_blank [js ''# T'', [], js ''x'', [], [], js ''y'', [], js ''---'', []] 4
   \<and> keeps_blank [js ''# T'', [], js ''x'', [], [], js ''y'', [], js ''---'', []] 6
   \<and> \<not> keeps_blank [js ''# T'', [], js ''x'', [], [], js ''y'', [], js ''---'', []] 8
   \<and> fst (remove_empty_lines (settings_off\<lparr>removeEmptyLines := True\<rparr>)
          (js ''# T\<newline>\<newline>x\<newline>\<newline>\<newline>y\<newline>\<newline>---\<newline>'', False))
       = js ''# T\<newline>\<newline>x\<newline>y\<newline>\<newline>---''"
proof -
  let ?cfg = "settings_off\<lparr>removeEmptyLines := True\<rparr>"
  let ?text = "js ''# T\<newline>\<newline>x\<newline>\<newline>\<newline>y\<newline>\<newline>---\<newline>''"
  let ?lines = "[js ''# T'', [], js ''x'', [], [], js ''y'', [], js ''---'', []]"
  have h: "removeEmptyLines ?cfg" by simp
  have l: "split_lines (normalize_line_endings ?text) = ?lines" by code_simp
  have k: "keeps_blank ?lines 1" "\<not> keeps_blank ?lines 3" "\<not> keeps_blank ?lines 4"
    "keeps_blank ?lines 6" "\<not> keeps_blank ?lines 8"
    by code_simp+
  have v: "(let lines = split_lines (normalize_line_endings ?text);
             marked = (\<lambda>i. \<not> stripLineBreaks ?cfg \<and> hasPreserveMarker (lines ! i))
         in join_lines
              (map (\<lambda>i. if marked i then [] else lines ! i)
                 (filter (\<lambda>i. marked i \<or> \<not> blank_line (lines ! i) \<or> keeps_blank lines i)
                    [0..<length lines])))
        = js ''# T\<newline>\<newline>x\<newline>y\<newline>\<newline>---''"
    by code_simp
  have r: "fst (remove_empty_lines ?cfg (?text, False)) = js ''# T\<newline>\<newline>x\<newline>y\<newline>\<newline>---''"
    using empty_line_filter_rules [where cfg = "?cfg" and markdown = "?text" and applied = False
        and engine = literal_engine] h
    unfolding v by blast
  show ?thesis using h l k r by (simp only: simp_thms)
qed

section \<open>Properties of the substitution rules\<close>

lemma apply_replacements_append:
  "apply_replacements engine (before @ after) st
     = apply_replacements engine after (apply_replacements engine before st)"
  by (simp add: apply_replacements_def)

lemma apply_replacements_Cons:
  "apply_replacements engine (r # after) st
     = apply_replacements engine after (apply_replacement engine r st)"
  by (simp add: apply_replacements_def)

lemma try_replacement_compile_error:
  assumes "new_RegExp engine (pattern r) = Inl e"
  shows "try_replacement engine r st = Inl e"
  using assms by (cases st) (simp add: try_replacement_def)

lemma apply_replacement_skip:
  assumes "try_replacement engine r st = Inl e"
  shows "apply_replacement engine r st = st"
  using assms by (simp add: apply_replacement_def)

text \<open>
  C5. A rule whose pattern the runtime refuses to compile is skipped: the transformation
  returns what it returns without that rule in the list, so the rules after it are still
  applied, in order, to the text the rules before it left, and the error does not leave
  the function. The same holds when compiling succeeds and applying the expression
  raises: the turn of the loop leaves text and flag as they were, and the loop goes on.
\<close>

theorem failing_rule_skipped:
  "(new_RegExp engine (pattern r) = Inl e \<longrightarrow>
      transformMarkdown engine markdown (cfg\<lparr>markdownRegexReplacements := before @ r # after\<rparr>)
          contextLevel escapeMarkdown
        = transformMarkdown engine markdown (cfg\<lparr>markdownRegexReplacements := before @ after\<rparr>)
            contextLevel escapeMarkdown)
   \<and> (try_replacement engine r (apply_replacements engine before st) = Inl e \<longrightarrow>
        apply_replacement engine r (apply_replacements engine before st)
          = apply_replacements engine before st
        \<and> apply_replacements engine (before @ r # after) st
          = apply_replacements engine after (apply_replacements engine before st))"
proof (intro conjI impI)
  assume bad: "new_RegExp engine (pattern r) = Inl e"
  have skip: "\<And>s. apply_replacements engine (before @ r # after) s
                  = apply_replacements engine (before @ after) s"
    by (simp add: apply_replacements_append apply_replacements_Cons
        apply_replacement_skip [OF try_replacement_compile_error [OF bad]])
  show "transformMarkdown engine markdown (cfg\<lparr>markdownRegexReplacements := before @ r # after\<rparr>)
          contextLevel escapeMarkdown
        = transformMarkdown engine markdown (cfg\<lparr>markdownRegexReplacements := before @ after\<rparr>)
            contextLevel escapeMarkdown"
    by (simp add: transformMarkdown_def skip normalize_headings_def
        convert_to_single_spaced_def remove_empty_lines_def Let_def)
next
  assume bad: "try_replacement engine r (apply_replacements engine before st) = Inl e"
  then show "apply_replacement engine r (apply_replacements engine before st)
          = apply_replacements engine before st"
    by (rule apply_replacement_skip)
  then show "apply_replacements engine (before @ r # after) st
          = apply_replacements engine after (apply_replacements engine before st)"
    by (simp add: apply_replacements_append apply_replacements_Cons)
qed

theorem failing_rule_skipped_witness:
  "new_RegExp literal_engine (pattern \<lparr>pattern = js ''('', replacement = js ''x''\<rparr>) = Inl SyntaxError
   \<and> try_replacement literal_engine \<lparr>pattern = js ''('', replacement = js ''x''\<rparr>
        (apply_replacements literal_engine [\<lparr>pattern = js ''a'', replacement = js ''b''\<rparr>] (js ''a'', False))
      = Inl SyntaxError
   \<and> transformMarkdown literal_engine (js ''a'')
        (settings_off\<lparr>markdownRegexReplacements :=
           [\<lparr>pattern = js ''a'', replacement = js ''b''\<rparr>] @ \<lparr>pattern = js ''('', replacement = js ''x''\<rparr>
              # [\<lparr>pattern = js ''b'', replacement = js ''c'' @ [BACKSLASH, 0x6E]\<rparr>]\<rparr>) 0 False
      = (js ''c\<newline>'', True)
   \<and> apply_replacements literal_engine
        ([\<lparr>pattern = js ''a'', replacement = js ''b''\<rparr>] @ \<lparr>pattern = js ''('', replacement = js ''x''\<rparr>
              # [\<lparr>pattern = js ''b'', replacement = js ''c'' @ [BACKSLASH, 0x6E]\<rparr>]) (js ''a'', False)
      = (js ''c\<newline>'', True)"
proof -
  let ?r1 = "\<lparr>pattern = js ''a'', replacement = js ''b''\<rparr>"
  let ?bad = "\<lparr>pattern = js ''('', replacement = js ''x''\<rparr>"
  let ?r2 = "\<lparr>pattern = js ''b'', replacement = js ''c'' @ [BACKSLASH, 0x6E]\<rparr>"
  have h1: "new_RegExp literal_engine (pattern ?bad) = Inl SyntaxError" by code_simp
  have h2: "try_replacement literal_engine ?bad
              (apply_replacements literal_engine [?r1] (js ''a'', False)) = Inl SyntaxError"
    by code_simp
  note t = failing_rule_skipped [where engine = literal_engine and r = ?bad and e = SyntaxError
      and before = "[?r1]" and after = "[?r2]" and markdown = "js ''a''" and cfg = settings_off
      and contextLevel = 0 and escapeMarkdown = False and st = "(js ''a'', False)"]
  have v1: "transformMarkdown literal_engine (js ''a'')
              (settings_off\<lparr>markdownRegexReplacements := [?r1] @ [?r2]\<rparr>) 0 False
            = (js ''c\<newline>'', True)"
    by code_simp
  have v2: "apply_replacements literal_engine [?r2]
              (apply_replacements literal_engine [?r1] (js ''a'', False)) = (js ''c\<newline>'', True)"
    by code_simp
  have a: "transformMarkdown literal_engine (js ''a'')
        (settings_off\<lparr>markdownRegexReplacements := [?r1] @ ?bad # [?r2]\<rparr>) 0 False
      = (js ''c\<newline>'', True)"
    using t h1 v1 by simp
  have b: "apply_replacements literal_engine ([?r1] @ ?bad # [?r2]) (js ''a'', False)
      = (js ''c\<newline>'', True)"
    using t h2 v2 by simp
  show ?thesis using h1 h2 a b by (simp only: simp_thms)
qed

section \<open>The flag across the stages\<close>

lemma transformMarkdown_stages:
  "transformMarkdown engine markdown cfg contextLevel escapeMarkdown
     = apply_replacements engine (markdownRegexReplacements cfg)
         (stage3 cfg contextLevel escapeMarkdown markdown)"
  by (simp add: transformMarkdown_def stage1_def stage2_def stage3_def Let_def)

lemma apply_replacement_cases:
  "apply_replacement engine r (t, a) = (t, a)
   \<or> (\<exists>t'. apply_replacement engine r (t, a) = (t', if t \<noteq> t' then True else a))"
  by (auto simp: apply_replacement_def try_replacement_def Let_def split: sum.splits)

lemma apply_replacement_fst:
  "fst (apply_replacement engine r (t, a)) = fst (apply_replacement engine r (t, b))"
  by (auto simp: apply_replacement_def try_replacement_def Let_def split: sum.splits)

lemma apply_replacement_unaltered:
  assumes "fst (apply_replacement engine r (t, a)) = t"
  shows "apply_replacement engine r (t, a) = (t, a)"
  using assms apply_replacement_cases [of engine r t a] by auto

lemma apply_replacement_altered:
  assumes "fst (apply_replacement engine r st) \<noteq> fst st"
  shows "snd (apply_replacement engine r st)"
proof (cases st)
  case (Pair t a)
  with assms apply_replacement_cases [of engine r t a] show ?thesis
    by (auto split: if_splits)
qed

lemma apply_replacement_mono:
  assumes "snd st"
  shows "snd (apply_replacement engine r st)"
proof (cases st)
  case (Pair t a)
  with assms apply_replacement_cases [of engine r t a] show ?thesis
    by (auto split: if_splits)
qed

lemma apply_replacements_mono:
  assumes "snd st"
  shows "snd (apply_replacements engine rules st)"
  using assms
  by (induction rules arbitrary: st) (simp_all add: apply_replacements_def apply_replacement_mono)

lemma apply_replacements_inert:
  assumes "\<forall>r\<in>set rules. fst (apply_replacement engine r (t, False)) = t"
  shows "apply_replacements engine rules (t, a) = (t, a)"
  using assms
proof (induction rules)
  case Nil
  show ?case by (simp add: apply_replacements_def)
next
  case (Cons r rules)
  then have "fst (apply_replacement engine r (t, a)) = t"
    using apply_replacement_fst [of engine r t a False] by simp
  then have "apply_replacement engine r (t, a) = (t, a)" by (rule apply_replacement_unaltered)
  with Cons show ?case by (simp add: apply_replacements_Cons)
qed

text \<open>
  C10. When the collapser or the filter runs, it works on the text in which every CR LF
  pair is a lone LF, and takes its snapshot for the comparison after that replacement.
  So for a text that the first stage leaves as it is, that the blank-line stage changes
  in nothing but CR LF to LF, and that no rule alters, the transformation returns a text
  different from its input together with the flag false.
\<close>

theorem crlf_normalization_not_flagged:
  "normalize_line_endings (a @ CR # LF # b)
     = normalize_line_endings a @ LF # normalize_line_endings b
   \<and> (convertToSingleSpaced cfg \<and> \<not> removeEmptyLines cfg \<longrightarrow>
        fst (convert_to_single_spaced cfg (text, applied))
          = collapse_blank_runs (normalize_line_endings text))
   \<and> (removeEmptyLines cfg \<longrightarrow>
        fst (remove_empty_lines cfg (text, applied))
          = join_lines (filter_lines (\<not> stripLineBreaks cfg)
              (split_lines (normalize_line_endings text))))
   \<and> ((convertToSingleSpaced cfg \<or> removeEmptyLines cfg) \<longrightarrow>
       fst (stage1 cfg contextLevel escapeMarkdown markdown) = markdown \<longrightarrow>
       fst (stage3 cfg contextLevel escapeMarkdown markdown) = normalize_line_endings markdown \<longrightarrow>
       (\<forall>r\<in>set (markdownRegexReplacements cfg).
           fst (apply_replacement engine r (normalize_line_endings markdown, False))
             = normalize_line_endings markdown) \<longrightarrow>
       normalize_line_endings markdown \<noteq> markdown \<longrightarrow>
         transformMarkdown engine markdown cfg contextLevel escapeMarkdown
           = (normalize_line_endings markdown, False)
         \<and> fst (transformMarkdown engine markdown cfg contextLevel escapeMarkdown) \<noteq> markdown)"
proof (intro conjI impI)
  show "normalize_line_endings (a @ CR # LF # b)
     = normalize_line_endings a @ LF # normalize_line_endings b"
    by (rule normalize_append_crlf)
next
  assume "convertToSingleSpaced cfg \<and> \<not> removeEmptyLines cfg"
  then show "fst (convert_to_single_spaced cfg (text, applied))
          = collapse_blank_runs (normalize_line_endings text)"
    by (simp add: convert_to_single_spaced_def Let_def)
next
  assume "removeEmptyLines cfg"
  then show "fst (remove_empty_lines cfg (text, applied))
          = join_lines (filter_lines (\<not> stripLineBreaks cfg)
              (split_lines (normalize_line_endings text)))"
    by (simp add: remove_empty_lines_def Let_def)
next
  assume run: "convertToSingleSpaced cfg \<or> removeEmptyLines cfg"
    and one: "fst (stage1 cfg contextLevel escapeMarkdown markdown) = markdown"
    and three: "fst (stage3 cfg contextLevel escapeMarkdown markdown) = normalize_line_endings markdown"
    and rules: "\<forall>r\<in>set (markdownRegexReplacements cfg).
           fst (apply_replacement engine r (normalize_line_endings markdown, False))
             = normalize_line_endings markdown"
    and differs: "normalize_line_endings markdown \<noteq> markdown"
  have s1: "stage1 cfg contextLevel escapeMarkdown markdown = (markdown, False)"
  proof (cases escapeMarkdown)
    case True
    with one show ?thesis by (simp add: stage1_def escape_markdown_def Let_def)
  next
    case False
    with one show ?thesis by (simp add: stage1_def heading_unaltered_flag)
  qed
  have s3: "stage3 cfg contextLevel escapeMarkdown markdown = (normalize_line_endings markdown, False)"
  proof (cases "removeEmptyLines cfg")
    case True
    with three s1 show ?thesis
      by (simp add: stage3_def stage2_def convert_to_single_spaced_def remove_empty_lines_def Let_def)
  next
    case False
    with run have "convertToSingleSpaced cfg" by blast
    with False three s1 show ?thesis
      by (simp add: stage3_def stage2_def convert_to_single_spaced_def remove_empty_lines_def Let_def)
  qed
  show r: "transformMarkdown engine markdown cfg contextLevel escapeMarkdown
           = (normalize_line_endings markdown, False)"
    unfolding transformMarkdown_stages s3 using rules by (rule apply_replacements_inert)
  show "fst (transformMarkdown engine markdown cfg contextLevel escapeMarkdown) \<noteq> markdown"
    unfolding r using differs by simp
qed

theorem crlf_normalization_not_flagged_witness:
  "convertToSingleSpaced
     (settings_off\<lparr>convertToSingleSpaced := True,
        markdownRegexReplacements := [\<lparr>pattern = js ''z'', replacement = js ''y''\<rparr>]\<rparr>)
   \<and> fst (stage1 (settings_off\<lparr>convertToSingleSpaced := True,
        markdownRegexReplacements := [\<lparr>pattern = js ''z'', replacement = js ''y''\<rparr>]\<rparr>)
        0 False [0x61, CR, LF, 0x62])
        = [0x61, CR, LF, 0x62]
   \<and> fst (stage3 (settings_off\<lparr>convertToSingleSpaced := True,
        markdownRegexReplacements := [\<lparr>pattern = js ''z'', replacement = js ''y''\<rparr>]\<rparr>)
        0 False [0x61, CR, LF, 0x62])
        = [0x61, LF, 0x62]
   \<and> fst (apply_replacement literal_engine \<lparr>pattern = js ''z'', replacement = js ''y''\<rparr>
        ([0x61, LF, 0x62], False)) = [0x61, LF, 0x62]
   \<and> normalize_line_endings [0x61, CR, LF, 0x62] = [0x61, LF, 0x62]
   \<and> transformMarkdown literal_engine [0x61, CR, LF, 0x62]
        (settings_off\<lparr>convertToSingleSpaced := True,
           markdownRegexReplacements := [\<lparr>pattern = js ''z'', replacement = js ''y''\<rparr>]\<rparr>)
        0 False = ([0x61, LF, 0x62], False)"
proof -
  let ?cfg = "settings_off\<lparr>convertToSingleSpaced := True,
        markdownRegexReplacements := [\<lparr>pattern = js ''z'', replacement = js ''y''\<rparr>]\<rparr>"
  let ?md = "[0x61, CR, LF, 0x62] :: jsstring"
  have n: "normalize_line_endings ?md = [0x61, LF, 0x62]" by code_simp
  have h0: "convertToSingleSpaced ?cfg" by simp
  have h1: "convertToSingleSpaced ?cfg \<or> removeEmptyLines ?cfg" by simp
  have h2: "fst (stage1 ?cfg 0 False ?md) = ?md" by code_simp
  have h3: "fst (stage3 ?cfg 0 False ?md) = normalize_line_endings ?md" by code_simp
  have a: "fst (apply_replacement literal_engine \<lparr>pattern = js ''z'', replacement = js ''y''\<rparr>
        ([0x61, LF, 0x62], False)) = [0x61, LF, 0x62]" by code_simp
  have h4: "\<forall>r\<in>set (markdownRegexReplacements ?cfg).
           fst (apply_replacement literal_engine r (normalize_line_endings ?md, False))
             = normalize_line_endings ?md"
    unfolding n using a by simp
  have h5: "normalize_line_endings ?md \<noteq> ?md" unfolding n by simp
  note t = crlf_normalization_not_flagged [where cfg = ?cfg and contextLevel = 0
      and escapeMarkdown = False and markdown = ?md and engine = literal_engine]
  have r: "transformMarkdown literal_engine ?md ?cfg 0 False = (normalize_line_endings ?md, False)"
    using t h1 h2 h3 h4 h5 by blast
  show ?thesis using h0 h2 h3 a r unfolding n by (simp only: simp_thms)
qed

text \<open>A replacement shorter than every match shortens the text, unless nothing matched.\<close>

lemma substitute_shrink:
  assumes "\<forall>mt. Hit mt \<in> set ps \<longrightarrow> length (f mt) < length mt"
  shows "length (substitute f ps) \<le> length (substitute (\<lambda>mt. mt) ps)
         \<and> (length (substitute f ps) = length (substitute (\<lambda>mt. mt) ps)
              \<longrightarrow> substitute f ps = substitute (\<lambda>mt. mt) ps)"
  using assms
proof (induction ps)
  case Nil
  show ?case by simp
next
  case (Cons p ps)
  then have ih: "length (substitute f ps) \<le> length (substitute (\<lambda>mt. mt) ps)"
    and eq: "length (substitute f ps) = length (substitute (\<lambda>mt. mt) ps)
              \<longrightarrow> substitute f ps = substitute (\<lambda>mt. mt) ps"
    by auto
  show ?case
  proof (cases p)
    case (Keep c)
    with ih eq show ?thesis by simp
  next
    case (Hit mt)
    with Cons.prems have "length (f mt) < length mt" by simp
    with ih Hit show ?thesis by simp
  qed
qed

lemma normalize_shrink:
  "length (normalize_line_endings s) \<le> length s"
  "length (normalize_line_endings s) = length s \<Longrightarrow> normalize_line_endings s = s"
proof -
  have hits: "\<forall>mt. Hit mt \<in> set (pieces crlfRegex None s) \<longrightarrow> length [LF] < length mt"
  proof (intro allI impI)
    fix mt assume "Hit mt \<in> set (pieces crlfRegex None s)"
    then obtain p t where "crlfRegex p t = Some (length mt)" using pieces_Hit by blast
    then show "length [LF] < length mt" by (simp add: crlfRegex_def split: if_splits)
  qed
  note sh = substitute_shrink [OF hits, unfolded substitute_id]
  show "length (normalize_line_endings s) \<le> length s"
    using sh by (simp add: normalize_line_endings_def replace_g_def)
  show "length (normalize_line_endings s) = length s \<Longrightarrow> normalize_line_endings s = s"
    using sh by (simp add: normalize_line_endings_def replace_g_def)
qed

lemma collapse_shrink:
  "length (collapse_blank_runs s) \<le> length s"
proof -
  have hits: "\<forall>mt. Hit mt \<in> set (pieces blankRunRegex None s) \<longrightarrow> length [LF, LF] < length mt"
  proof (intro allI impI)
    fix mt assume "Hit mt \<in> set (pieces blankRunRegex None s)"
    then obtain p t where "blankRunRegex p t = Some (length mt)" using pieces_Hit by blast
    then show "length [LF, LF] < length mt"
      by (simp add: blankRunRegex_def Let_def split: if_splits)
  qed
  note sh = substitute_shrink [OF hits, unfolded substitute_id]
  show ?thesis using sh by (simp add: collapse_blank_runs_def replace_g_def)
qed

lemma split_lines_not_Nil [simp]: "split_lines s \<noteq> []"
  by (induction s) (auto split: list.splits)

lemma join_split: "join_lines (split_lines s) = s"
proof (induction s)
  case Nil
  show ?case by simp
next
  case (Cons c cs)
  obtain l ls where sp: "split_lines cs = l # ls"
    using split_lines_not_Nil [of cs] by (cases "split_lines cs") auto
  with Cons show ?case by (cases ls) auto
qed

lemma length_join_lines:
  "length (join_lines ls) = sum_list (map length ls) + (length ls - 1)"
  by (induction ls rule: join_lines.induct) simp_all

lemma map_filter_upt_bounds:
  assumes "\<forall>i<length ls. \<forall>x. g i = Some x \<longrightarrow> length x \<le> length (ls ! i)"
  shows "length (List.map_filter g [0..<length ls]) \<le> length ls
         \<and> sum_list (map length (List.map_filter g [0..<length ls])) \<le> sum_list (map length ls)"
  using assms
proof (induction ls arbitrary: g)
  case Nil
  show ?case by (simp add: List.map_filter_def)
next
  case (Cons l ls)
  have idx: "[0..<length (l # ls)] = 0 # map Suc [0..<length ls]"
    by (simp add: upt_conv_Cons map_Suc_upt del: upt_Suc)
  have rest: "List.map_filter g (map Suc [0..<length ls]) = List.map_filter (g \<circ> Suc) [0..<length ls]"
    by (simp add: List.map_filter_def filter_map comp_def)
  have "\<forall>i<length ls. \<forall>x. (g \<circ> Suc) i = Some x \<longrightarrow> length x \<le> length (ls ! i)"
    using Cons.prems by auto
  from Cons.IH [OF this]
  have ih: "length (List.map_filter (g \<circ> Suc) [0..<length ls]) \<le> length ls"
    "sum_list (map length (List.map_filter (g \<circ> Suc) [0..<length ls])) \<le> sum_list (map length ls)"
    by blast+
  have zero: "\<forall>x. g 0 = Some x \<longrightarrow> length x \<le> length l"
    using Cons.prems by force
  show ?case
    unfolding idx
    using ih zero
    by (cases "g 0") (simp_all add: List.map_filter_simps rest del: upt_Suc)
qed

lemma filter_line_shorter:
  "filter_line p ls i = Some x \<Longrightarrow> length x \<le> length (ls ! i)"
  by (auto simp: filter_line_def Let_def split: if_splits)

lemma filter_shrink:
  "length (join_lines (filter_lines p ls)) \<le> length (join_lines ls)"
proof -
  have "length (filter_lines p ls) \<le> length ls
        \<and> sum_list (map length (filter_lines p ls)) \<le> sum_list (map length ls)"
    unfolding filter_lines_def
    by (rule map_filter_upt_bounds) (simp add: filter_line_shorter)
  then show ?thesis unfolding length_join_lines by linarith
qed


lemma stage1_unaltered:
  assumes "fst (stage1 cfg ctx esc md) = md"
  shows "stage1 cfg ctx esc md = (md, False)"
proof (cases esc)
  case True
  with assms show ?thesis by (simp add: stage1_def escape_markdown_def Let_def)
next
  case False
  with assms show ?thesis by (simp add: stage1_def heading_unaltered_flag)
qed

lemma convert_unaltered:
  assumes "fst (convert_to_single_spaced cfg (t, a)) = t"
  shows "convert_to_single_spaced cfg (t, a) = (t, a)"
proof (cases "convertToSingleSpaced cfg \<and> \<not> removeEmptyLines cfg")
  case True
  with assms have c: "collapse_blank_runs (normalize_line_endings t) = t"
    by (simp add: convert_to_single_spaced_def Let_def)
  have "length t \<le> length (normalize_line_endings t)"
    using collapse_shrink [of "normalize_line_endings t"] c by simp
  with normalize_shrink [of t] have "normalize_line_endings t = t" by simp
  with c True show ?thesis by (simp add: convert_to_single_spaced_def Let_def)
next
  case False
  then show ?thesis by (auto simp: convert_to_single_spaced_def)
qed

lemma remove_unaltered:
  assumes "fst (remove_empty_lines cfg (t, a)) = t"
  shows "remove_empty_lines cfg (t, a) = (t, a)"
proof (cases "removeEmptyLines cfg")
  case True
  with assms have c: "join_lines (filter_lines (\<not> stripLineBreaks cfg)
      (split_lines (normalize_line_endings t))) = t"
    by (simp add: remove_empty_lines_def Let_def)
  have "length t \<le> length (normalize_line_endings t)"
    using filter_shrink [of "\<not> stripLineBreaks cfg" "split_lines (normalize_line_endings t)"] c
    by (simp add: join_split)
  with normalize_shrink [of t] have "normalize_line_endings t = t" by simp
  with c True show ?thesis by (simp add: remove_empty_lines_def Let_def)
next
  case False
  then show ?thesis by (simp add: remove_empty_lines_def)
qed

lemma convert_mono: "snd st \<Longrightarrow> snd (convert_to_single_spaced cfg st)"
  by (cases st) (simp add: convert_to_single_spaced_def Let_def)

lemma remove_mono: "snd st \<Longrightarrow> snd (remove_empty_lines cfg st)"
  by (cases st) (simp add: remove_empty_lines_def Let_def)

lemma convert_altered:
  assumes "convertToSingleSpaced cfg" "\<not> removeEmptyLines cfg"
    and "fst (convert_to_single_spaced cfg st) \<noteq> normalize_line_endings (fst st)"
  shows "snd (convert_to_single_spaced cfg st)"
  using assms by (cases st) (auto simp: convert_to_single_spaced_def Let_def)

lemma remove_altered:
  assumes "removeEmptyLines cfg"
    and "fst (remove_empty_lines cfg st) \<noteq> normalize_line_endings (fst st)"
  shows "snd (remove_empty_lines cfg st)"
  using assms by (cases st) (auto simp: remove_empty_lines_def Let_def)

text \<open>
  C3, as the code has it. If no stage alters the text (the first stage, the collapser, the
  filter and every rule return the text they were given), the flag is false. If the
  escaper alters the text, or the collapser's output differs from the text it normalized,
  or the filter's output differs from the text it normalized, or a rule alters the text
  it is given, the flag is true, whatever the later stages do, also when the final text
  is the input again.
\<close>

theorem no_op_detection:
  "(fst (stage1 cfg contextLevel escapeMarkdown markdown) = markdown \<longrightarrow>
    fst (stage2 cfg contextLevel escapeMarkdown markdown)
      = fst (stage1 cfg contextLevel escapeMarkdown markdown) \<longrightarrow>
    fst (stage3 cfg contextLevel escapeMarkdown markdown)
      = fst (stage2 cfg contextLevel escapeMarkdown markdown) \<longrightarrow>
    (\<forall>r\<in>set (markdownRegexReplacements cfg).
        fst (apply_replacement engine r (markdown, False)) = markdown) \<longrightarrow>
      transformMarkdown engine markdown cfg contextLevel escapeMarkdown = (markdown, False))
   \<and> ((escapeMarkdown \<and> fst (stage1 cfg contextLevel escapeMarkdown markdown) \<noteq> markdown)
       \<or> (convertToSingleSpaced cfg \<and> \<not> removeEmptyLines cfg
            \<and> fst (stage2 cfg contextLevel escapeMarkdown markdown)
                 \<noteq> normalize_line_endings (fst (stage1 cfg contextLevel escapeMarkdown markdown)))
       \<or> (removeEmptyLines cfg
            \<and> fst (stage3 cfg contextLevel escapeMarkdown markdown)
                 \<noteq> normalize_line_endings (fst (stage2 cfg contextLevel escapeMarkdown markdown)))
       \<or> (markdownRegexReplacements cfg = before @ r # after
            \<and> fst (apply_replacement engine r
                      (apply_replacements engine before
                         (stage3 cfg contextLevel escapeMarkdown markdown)))
                 \<noteq> fst (apply_replacements engine before
                           (stage3 cfg contextLevel escapeMarkdown markdown)))
       \<longrightarrow> snd (transformMarkdown engine markdown cfg contextLevel escapeMarkdown))"
proof (intro conjI impI)
  let ?s1 = "stage1 cfg contextLevel escapeMarkdown markdown"
  let ?s2 = "stage2 cfg contextLevel escapeMarkdown markdown"
  let ?s3 = "stage3 cfg contextLevel escapeMarkdown markdown"
  assume one: "fst ?s1 = markdown" and two: "fst ?s2 = fst ?s1" and three: "fst ?s3 = fst ?s2"
    and rules: "\<forall>r\<in>set (markdownRegexReplacements cfg).
        fst (apply_replacement engine r (markdown, False)) = markdown"
  from one have s1: "?s1 = (markdown, False)" by (rule stage1_unaltered)
  from two have s2: "?s2 = (markdown, False)"
    unfolding stage2_def s1 by (simp add: convert_unaltered)
  from three have s3: "?s3 = (markdown, False)"
    unfolding stage3_def s2 by (simp add: remove_unaltered)
  show "transformMarkdown engine markdown cfg contextLevel escapeMarkdown = (markdown, False)"
    unfolding transformMarkdown_stages s3 using rules by (rule apply_replacements_inert)
next
  let ?s1 = "stage1 cfg contextLevel escapeMarkdown markdown"
  let ?s2 = "stage2 cfg contextLevel escapeMarkdown markdown"
  let ?s3 = "stage3 cfg contextLevel escapeMarkdown markdown"
  assume alt: "(escapeMarkdown \<and> fst ?s1 \<noteq> markdown)
       \<or> (convertToSingleSpaced cfg \<and> \<not> removeEmptyLines cfg
            \<and> fst ?s2 \<noteq> normalize_line_endings (fst ?s1))
       \<or> (removeEmptyLines cfg \<and> fst ?s3 \<noteq> normalize_line_endings (fst ?s2))
       \<or> (markdownRegexReplacements cfg = before @ r # after
            \<and> fst (apply_replacement engine r (apply_replacements engine before ?s3))
                 \<noteq> fst (apply_replacements engine before ?s3))"
  have from1: "snd ?s1 \<Longrightarrow> snd ?s3"
    unfolding stage3_def stage2_def by (simp add: convert_mono remove_mono)
  have from2: "snd ?s2 \<Longrightarrow> snd ?s3"
    unfolding stage3_def by (simp add: remove_mono)
  have from3: "snd ?s3 \<Longrightarrow> snd (transformMarkdown engine markdown cfg contextLevel escapeMarkdown)"
    unfolding transformMarkdown_stages by (rule apply_replacements_mono)
  from alt consider
    (esc) "escapeMarkdown" "fst ?s1 \<noteq> markdown"
    | (collapse) "convertToSingleSpaced cfg" "\<not> removeEmptyLines cfg"
        "fst ?s2 \<noteq> normalize_line_endings (fst ?s1)"
    | (filter) "removeEmptyLines cfg" "fst ?s3 \<noteq> normalize_line_endings (fst ?s2)"
    | (subst) "markdownRegexReplacements cfg = before @ r # after"
        "fst (apply_replacement engine r (apply_replacements engine before ?s3))
           \<noteq> fst (apply_replacements engine before ?s3)"
    by blast
  then show "snd (transformMarkdown engine markdown cfg contextLevel escapeMarkdown)"
  proof cases
    case esc
    then have "snd ?s1" by (auto simp: stage1_def escape_markdown_def Let_def)
    then show ?thesis using from1 from3 by blast
  next
    case collapse
    then have "snd ?s2" unfolding stage2_def by (rule convert_altered)
    then show ?thesis using from2 from3 by blast
  next
    case filter
    then have "snd ?s3" unfolding stage3_def by (rule remove_altered)
    then show ?thesis using from3 by blast
  next
    case subst
    from subst(2) have "snd (apply_replacement engine r (apply_replacements engine before ?s3))"
      by (rule apply_replacement_altered)
    then have "snd (apply_replacements engine after
        (apply_replacement engine r (apply_replacements engine before ?s3)))"
      by (rule apply_replacements_mono)
    then show ?thesis
      unfolding transformMarkdown_stages subst(1)
      by (simp add: apply_replacements_append apply_replacements_Cons)
  qed
qed

theorem no_op_detection_witness:
  "transformMarkdown literal_engine (js ''a'')
      (settings_off\<lparr>markdownRegexReplacements :=
         [\<lparr>pattern = js ''z'', replacement = js ''y''\<rparr>]\<rparr>) 0 False = (js ''a'', False)
   \<and> fst (apply_replacement literal_engine \<lparr>pattern = js ''a'', replacement = js ''b''\<rparr>
        (apply_replacements literal_engine []
           (stage3 (settings_off\<lparr>markdownRegexReplacements :=
              [] @ \<lparr>pattern = js ''a'', replacement = js ''b''\<rparr>
                 # [\<lparr>pattern = js ''b'', replacement = js ''a''\<rparr>]\<rparr>) 0 False (js ''a'')))) = js ''b''
   \<and> transformMarkdown literal_engine (js ''a'')
      (settings_off\<lparr>markdownRegexReplacements :=
         [] @ \<lparr>pattern = js ''a'', replacement = js ''b''\<rparr>
            # [\<lparr>pattern = js ''b'', replacement = js ''a''\<rparr>]\<rparr>) 0 False = (js ''a'', True)"
proof -
  let ?z = "\<lparr>pattern = js ''z'', replacement = js ''y''\<rparr>"
  let ?ab = "\<lparr>pattern = js ''a'', replacement = js ''b''\<rparr>"
  let ?ba = "\<lparr>pattern = js ''b'', replacement = js ''a''\<rparr>"
  let ?cfg1 = "settings_off\<lparr>markdownRegexReplacements := [?z]\<rparr>"
  let ?cfg2 = "settings_off\<lparr>markdownRegexReplacements := [] @ ?ab # [?ba]\<rparr>"
  let ?md = "js ''a''"
  have a1: "fst (stage1 ?cfg1 0 False ?md) = ?md" by code_simp
  have a2: "fst (stage2 ?cfg1 0 False ?md) = fst (stage1 ?cfg1 0 False ?md)" by code_simp
  have a3: "fst (stage3 ?cfg1 0 False ?md) = fst (stage2 ?cfg1 0 False ?md)" by code_simp
  have z: "fst (apply_replacement literal_engine ?z (?md, False)) = ?md" by code_simp
  have a4: "\<forall>r\<in>set (markdownRegexReplacements ?cfg1).
        fst (apply_replacement literal_engine r (?md, False)) = ?md"
    using z by simp
  have first: "transformMarkdown literal_engine ?md ?cfg1 0 False = (?md, False)"
    using no_op_detection [where cfg = ?cfg1 and contextLevel = 0 and escapeMarkdown = False
        and markdown = ?md and engine = literal_engine] a1 a2 a3 a4
    by blast
  have b1: "markdownRegexReplacements ?cfg2 = [] @ ?ab # [?ba]" by simp
  have b2: "fst (apply_replacement literal_engine ?ab
              (apply_replacements literal_engine [] (stage3 ?cfg2 0 False ?md))) = js ''b''"
    by code_simp
  have b3: "fst (apply_replacements literal_engine [] (stage3 ?cfg2 0 False ?md)) = js ''a''"
    by code_simp
  have b4: "js ''b'' \<noteq> js ''a''" by (simp add: js_def)
  have flag: "snd (transformMarkdown literal_engine ?md ?cfg2 0 False)"
    using no_op_detection [where cfg = ?cfg2 and contextLevel = 0 and escapeMarkdown = False
        and markdown = ?md and engine = literal_engine and before = "[]" and r = ?ab
        and after = "[?ba]"] b1 b2 b3 b4
    by (simp only: simp_thms)
  have out: "fst (transformMarkdown literal_engine ?md ?cfg2 0 False) = ?md" by code_simp
  have second: "transformMarkdown literal_engine ?md ?cfg2 0 False = (?md, True)"
    using flag out by (simp add: prod_eq_iff)
  show ?thesis using first b2 second by (simp only: simp_thms)
qed

text \<open>
  C3, as stated, fails: on \<^verbatim>\<open>"a\r\nb"\<close> with \<^verbatim>\<open>removeEmptyLines\<close> on, the filter alters the
  text (CR LF becomes LF) and the flag is false, the snapshot for the comparison being
  taken after the line endings are normalized.
\<close>

theorem no_op_detection_counterexample:
  "fst (stage3 (settings_off\<lparr>removeEmptyLines := True\<rparr>) 0 False [0x61, CR, LF, 0x62])
     \<noteq> fst (stage2 (settings_off\<lparr>removeEmptyLines := True\<rparr>) 0 False [0x61, CR, LF, 0x62])
   \<and> transformMarkdown literal_engine [0x61, CR, LF, 0x62]
        (settings_off\<lparr>removeEmptyLines := True\<rparr>) 0 False = ([0x61, LF, 0x62], False)"
  by code_simp

section \<open>Idempotence of the clamp\<close>

lemma render_clamp:
  "render ps (new_levels (max_level M False) st (levels ps)) = substitute (clamp_text M) ps"
proof (induction ps)
  case Nil
  show ?case by simp
next
  case (Cons p ps)
  have step: "\<And>l. max_level M False st l = (max l M, st)" by (simp add: max_level_def)
  show ?case using Cons by (cases p) (simp_all add: step clamp_text_def)
qed

lemma substitute_cb_clamp:
  "fst (substitute_cb (level_callback (max_level M False)) (st, a) ps) = substitute (clamp_text M) ps"
  by (simp add: substitute_level_callback render_clamp)

lemma normalize_headings_clamp:
  assumes "\<not> (contextualCascade cfg \<and> ctx > 0)" "maxHeadingLevel cfg > 1" "\<not> cascadeHeadingLevels cfg"
  shows "fst (normalize_headings cfg ctx (md, a)) = clamp_headings (maxHeadingLevel cfg) None md"
proof -
  from assms(1) have no: "(contextualCascade cfg \<and> ctx > 0) = False" by simp
  show ?thesis
    unfolding normalize_headings_def no clamp_headings_def replace_cb_def max_level_callback_level
    using assms(2,3) substitute_cb_clamp [of "maxHeadingLevel cfg" "\<lparr>delta = -1, cascading = False\<rparr>" a
        "pieces headingRegex None md"]
    by (simp add: split_beta)
qed

text \<open>Whether a heading marker starts a text depends on its run of \<^verbatim>\<open>#\<close> and on the code
  unit after the run.\<close>

lemma heading_at_hashes_end: "heading_at (replicate k HASH) = None"
  using run_replicate_stop [of "\<lambda>c. c = HASH" HASH "[]" k] by (simp add: heading_at_def)

lemma heading_at_hashes:
  assumes "d \<noteq> HASH"
  shows "heading_at (replicate k HASH @ d # t)
           = (if 1 \<le> k \<and> k \<le> 6 \<and> is_space d then Some (k + 1) else None)"
  using assms run_replicate_stop [of "\<lambda>c. c = HASH" HASH "d # t" k]
  by (simp add: heading_at_def nth_append)

lemma clamp_Nil [simp]: "clamp_headings M p [] = []"
  by (simp add: clamp_headings_def)

lemma clamp_keep:
  assumes "\<not> line_start p \<or> heading_at (c # cs) = None"
  shows "clamp_headings M p (c # cs) = c # clamp_headings M (Some c) cs"
  using assms by (auto simp: clamp_headings_def headingRegex_def)

lemma clamp_hit:
  assumes "line_start p" "d \<noteq> HASH" "is_space d" "1 \<le> k" "k \<le> 6"
  shows "clamp_headings M p (replicate k HASH @ d # t)
           = heading_text (max (int k) M) @ clamp_headings M (Some d) t"
proof -
  obtain c cs where s: "replicate k HASH @ d # t = c # cs"
    by (cases "replicate k HASH @ d # t") auto
  have h: "headingRegex p (c # cs) = Some (k + 1)"
    using assms heading_at_hashes [OF assms(2), of k t] s by (simp add: headingRegex_def)
  have len: "k + 1 \<le> length (c # cs)" using s [symmetric] by simp
  have tk: "take (k + 1) (c # cs) = replicate k HASH @ [d]" using s [symmetric] by simp
  have dr: "drop (k + 1) (c # cs) = t" using s [symmetric] by simp
  have nt: "(c # cs) ! k = d" using s [symmetric] by (simp add: nth_append)
  have "pieces headingRegex p (c # cs)
          = Hit (replicate k HASH @ [d]) # pieces headingRegex (Some d) t"
    using h len tk dr nt by (simp del: take_Suc_Cons drop_Suc_Cons replicate_Suc nth_Cons_Suc)
  then show ?thesis
    unfolding s by (simp add: clamp_headings_def clamp_text_def)
qed

text \<open>Away from a line start, a run of \<^verbatim>\<open>#\<close> is copied.\<close>

lemma clamp_copy_hashes:
  assumes "\<not> line_start p"
  shows "clamp_headings M p (replicate j HASH @ t)
           = replicate j HASH @ clamp_headings M (if j = 0 then p else Some HASH) t"
  using assms
proof (induction j arbitrary: p)
  case 0
  show ?case by simp
next
  case (Suc j)
  have nl: "\<not> line_start (Some HASH)" by (simp add: line_start_def is_line_terminator_def)
  have "clamp_headings M p (HASH # (replicate j HASH @ t))
          = HASH # clamp_headings M (Some HASH) (replicate j HASH @ t)"
    using Suc.prems by (simp add: clamp_keep)
  also have "clamp_headings M (Some HASH) (replicate j HASH @ t)
          = replicate j HASH @ clamp_headings M (Some HASH) t"
    using Suc.IH [OF nl] by (cases "j = 0") simp_all
  finally show ?case by simp
qed

lemma not_line_start_simps [simp]:
  "\<not> line_start (Some HASH)" "\<not> line_start (Some SPACE)"
  by (simp_all add: line_start_def is_line_terminator_def)

text \<open>A marker the clamp has written is a marker the clamp leaves as it is.\<close>

lemma clamp_written:
  assumes "M \<le> N" "1 \<le> N"
  shows "clamp_headings M q (heading_text N @ t) = heading_text N @ clamp_headings M (Some SPACE) t"
proof (cases "line_start q \<and> nat N \<le> 6")
  case True
  have "clamp_headings M q (replicate (nat N) HASH @ SPACE # t)
      = heading_text (max (int (nat N)) M) @ clamp_headings M (Some SPACE) t"
    using True assms by (intro clamp_hit) (simp_all add: is_space_def)
  moreover have "max (int (nat N)) M = N" using assms by simp
  ultimately show ?thesis by (simp add: heading_text_def)
next
  case False
  obtain j where j: "nat N = Suc j" using assms(2) by (cases "nat N") auto
  have first: "\<not> line_start q \<or> heading_at (HASH # (replicate j HASH @ SPACE # t)) = None"
  proof (cases "line_start q")
    case True
    with False have "6 < nat N" by simp
    then have "heading_at (replicate (nat N) HASH @ SPACE # t) = None"
      by (simp add: heading_at_hashes)
    then show ?thesis by (simp add: j)
  next
    case False
    then show ?thesis by simp
  qed
  have "clamp_headings M q (HASH # (replicate j HASH @ SPACE # t))
      = HASH # clamp_headings M (Some HASH) (replicate j HASH @ SPACE # t)"
    using first by (rule clamp_keep)
  also have "clamp_headings M (Some HASH) (replicate j HASH @ SPACE # t)
      = replicate j HASH @ clamp_headings M (Some HASH) (SPACE # t)"
    using clamp_copy_hashes [of "Some HASH" M j "SPACE # t"] by simp
  also have "clamp_headings M (Some HASH) (SPACE # t) = SPACE # clamp_headings M (Some SPACE) t"
    by (simp add: clamp_keep)
  finally show ?thesis by (simp add: heading_text_def j)
qed

text \<open>The clamp makes no new marker: where none starts in the input, none starts in the
  output.\<close>

lemma clamp_no_new_marker:
  assumes "heading_at (c # cs) = None"
  shows "heading_at (c # clamp_headings M (Some c) cs) = None"
proof (cases "c = HASH")
  case False
  then show ?thesis by (simp add: heading_at_def)
next
  case True
  let ?k = "run (\<lambda>c. c = HASH) cs"
  let ?t = "drop ?k cs"
  from run_decompose [of cs HASH]
  have cs: "cs = replicate ?k HASH @ ?t" and t: "?t = [] \<or> hd ?t \<noteq> HASH" by auto
  have out: "clamp_headings M (Some c) cs = replicate ?k HASH @ clamp_headings M (Some HASH) ?t"
    using clamp_copy_hashes [of "Some HASH" M ?k ?t] True cs by simp
  show ?thesis
  proof (cases ?t)
    case Nil
    then have e: "c # clamp_headings M (Some c) cs = replicate (Suc ?k) HASH"
      using out True by simp
    show ?thesis unfolding e by (rule heading_at_hashes_end)
  next
    case (Cons d u)
    with t have d: "d \<noteq> HASH" by simp
    have "clamp_headings M (Some HASH) (d # u) = d # clamp_headings M (Some d) u"
      by (simp add: clamp_keep)
    then have new: "c # clamp_headings M (Some c) cs
        = replicate (Suc ?k) HASH @ d # clamp_headings M (Some d) u"
      using out True Cons by simp
    have old: "c # cs = replicate (Suc ?k) HASH @ d # u"
      using cs True Cons by simp
    show ?thesis
      using assms unfolding new old heading_at_hashes [OF d] .
  qed
qed

lemma heading_at_decompose:
  assumes "heading_at s = Some n"
  shows "\<exists>k d t. s = replicate k HASH @ d # t \<and> n = k + 1 \<and> d \<noteq> HASH \<and> is_space d
                 \<and> 1 \<le> k \<and> k \<le> 6"
proof -
  let ?k = "run (\<lambda>c. c = HASH) s"
  let ?t = "drop ?k s"
  from run_decompose [of s HASH]
  have s: "s = replicate ?k HASH @ ?t" and t: "?t = [] \<or> hd ?t \<noteq> HASH" by auto
  from assms have k: "1 \<le> ?k" "?k \<le> 6" "?k < length s" "is_space (s ! ?k)" "n = ?k + 1"
    by (auto simp: heading_at_def Let_def split: if_splits)
  from k(3) obtain d u where du: "?t = d # u" by (cases ?t) auto
  with t have "d \<noteq> HASH" by simp
  moreover have "s ! ?k = d" using du by (metis k(3) hd_drop_conv_nth list.sel(1))
  ultimately show ?thesis using s du k by metis
qed

lemma clamp_idem_general:
  assumes "line_start q \<longrightarrow> line_start p"
  shows "clamp_headings M q (clamp_headings M p s) = clamp_headings M p s"
  using assms
proof (induction s arbitrary: p q rule: length_induct)
  case (1 s)
  show ?case
  proof (cases s)
    case Nil
    then show ?thesis by simp
  next
    case (Cons c cs)
    show ?thesis
    proof (cases "line_start p \<and> heading_at s \<noteq> None")
      case True
      then obtain n where "heading_at s = Some n" by auto
      from heading_at_decompose [OF this] obtain k d t
        where s: "s = replicate k HASH @ d # t" and d: "d \<noteq> HASH" "is_space d"
          and k: "1 \<le> k" "k \<le> 6" by blast
      let ?N = "max (int k) M"
      have out: "clamp_headings M p s = heading_text ?N @ clamp_headings M (Some d) t"
        unfolding s using True d k by (intro clamp_hit) simp_all
      have "length t < length s" using s by simp
      with 1(1) have ih: "clamp_headings M (Some SPACE) (clamp_headings M (Some d) t)
          = clamp_headings M (Some d) t" by simp
      have "clamp_headings M q (heading_text ?N @ clamp_headings M (Some d) t)
          = heading_text ?N @ clamp_headings M (Some SPACE) (clamp_headings M (Some d) t)"
        using k by (intro clamp_written) simp_all
      with ih out show ?thesis by simp
    next
      case False
      then have out: "clamp_headings M p s = c # clamp_headings M (Some c) cs"
        using Cons by (simp add: clamp_keep)
      have "length cs < length s" using Cons by simp
      with 1(1) have ih: "clamp_headings M (Some c) (clamp_headings M (Some c) cs)
          = clamp_headings M (Some c) cs" by simp
      have "\<not> line_start q \<or> heading_at (c # clamp_headings M (Some c) cs) = None"
      proof (cases "line_start q")
        case True
        with 1(2) False Cons have "heading_at (c # cs) = None" by simp
        then show ?thesis by (simp add: clamp_no_new_marker)
      next
        case False
        then show ?thesis by simp
      qed
      then have "clamp_headings M q (c # clamp_headings M (Some c) cs)
          = c # clamp_headings M (Some c) (clamp_headings M (Some c) cs)"
        by (rule clamp_keep)
      with ih out show ?thesis by simp
    qed
  qed
qed


lemma new_levels_clamp:
  "new_levels (max_level M False) st ls = map (\<lambda>l. max l M) ls"
  by (induction ls) (simp_all add: max_level_def)

text \<open>
  C9. In max-level mode without cascading (contextual mode not applicable, a maximum above
  1, cascading off) every marker gets \<open>max currentLevel maxHeadingLevel\<close>, and the
  heading normalizer applied to its own output gives that output again.
\<close>

theorem clamp_idempotent:
  assumes "\<not> (contextualCascade cfg \<and> contextLevel > 0)"
    and "maxHeadingLevel cfg > 1"
    and "\<not> cascadeHeadingLevels cfg"
  shows "heading_new_levels cfg contextLevel markdown
           = map (\<lambda>currentLevel. max currentLevel (maxHeadingLevel cfg))
               (levels (heading_pieces markdown))
         \<and> fst (normalize_headings cfg contextLevel
                  (fst (normalize_headings cfg contextLevel (markdown, applied)), applied'))
             = fst (normalize_headings cfg contextLevel (markdown, applied))"
proof
  from assms(1) have no: "(contextualCascade cfg \<and> contextLevel > 0) = False" by simp
  show "heading_new_levels cfg contextLevel markdown
           = map (\<lambda>currentLevel. max currentLevel (maxHeadingLevel cfg))
               (levels (heading_pieces markdown))"
    unfolding heading_new_levels_def no using assms(3) by (simp add: new_levels_clamp)
  have "line_start None \<longrightarrow> line_start None" by simp
  then have "clamp_headings (maxHeadingLevel cfg) None
               (clamp_headings (maxHeadingLevel cfg) None markdown)
             = clamp_headings (maxHeadingLevel cfg) None markdown"
    by (rule clamp_idem_general)
  then show "fst (normalize_headings cfg contextLevel
                  (fst (normalize_headings cfg contextLevel (markdown, applied)), applied'))
             = fst (normalize_headings cfg contextLevel (markdown, applied))"
    by (simp add: normalize_headings_clamp [OF assms])
qed

theorem clamp_idempotent_witness:
  "maxHeadingLevel (settings_off\<lparr>maxHeadingLevel := 2\<rparr>) > 1
   \<and> \<not> cascadeHeadingLevels (settings_off\<lparr>maxHeadingLevel := 2\<rparr>)
   \<and> fst (normalize_headings (settings_off\<lparr>maxHeadingLevel := 2\<rparr>) 0
            (js ''# a\<newline>#\<newline>### b'', False)) = js ''## a\<newline>## ### b''
   \<and> fst (normalize_headings (settings_off\<lparr>maxHeadingLevel := 2\<rparr>) 0
            (js ''## a\<newline>## ### b'', False)) = js ''## a\<newline>## ### b''"
proof -
  let ?cfg = "settings_off\<lparr>maxHeadingLevel := 2\<rparr>"
  let ?md = "js ''# a\<newline>#\<newline>### b''"
  have h1: "\<not> (contextualCascade ?cfg \<and> (0::int) > 0)" by simp
  have h2: "maxHeadingLevel ?cfg > 1" by simp
  have h3: "\<not> cascadeHeadingLevels ?cfg" by (simp add: settings_off_def)
  have once: "fst (normalize_headings ?cfg 0 (?md, False)) = js ''## a\<newline>## ### b''"
    by code_simp
  from clamp_idempotent [OF h1 h2 h3, of ?md False False]
  have "fst (normalize_headings ?cfg 0 (js ''## a\<newline>## ### b'', False)) = js ''## a\<newline>## ### b''"
    unfolding once by simp
  with h2 h3 once show ?thesis by (simp only: simp_thms)
qed

section \<open>Properties of the escaper\<close>


lemma substitute_map_Keep [simp]: "substitute f (map Keep s) = s"
  by (induction s) simp_all

lemma LESS_facts [simp]:
  "\<not> is_space LESS" "\<not> is_digit LESS"
  by (simp_all add: is_space_def is_digit_def)




















lemma escape_emphasis_Nil [simp]: "escape_emphasis [] = []"
  by (simp add: escape_emphasis_def replace_g_def)







lemma escape_backticks_Nil [simp]: "escape_backticks [] = []"
  by (simp add: escape_backticks_def replace_g_def)












lemma wrap_Nil [simp]: "wrap_html_tags [] = []"
  by (simp add: wrap_html_tags_def replace_g_def)




















end
